theory Spec2Isabelle
  imports
    Complex_Main
    "HOL-Library.Finite_Map"
    "HOL-Library.Multiset"
    "HOL-Library.Char_ord"
    "HOL-Library.List_Lexorder"
    "HOL-Library.Product_Lexorder"
begin

section \<open>Data model of Search\_Method.py\<close>

text \<open>
  Python floats are idealised as real numbers, strings are lists of characters, the
  adjacency dictionary is a finite map from a name to the list of its neighbours (in
  insertion order), and the dictionary of cities is a partial map from a name to a pair
  (latitude, longitude).  An exception is the left summand of a result.
\<close>

type_synonym coord = "real \<times> real"
type_synonym locations = "string \<rightharpoonup> coord"
type_synonym adjacency = "(string, string list) fmap"

datatype error = KeyError string | ValueError | SystemExit nat

definition and_then :: "error + 'a \<Rightarrow> ('a \<Rightarrow> error + 'b) \<Rightarrow> error + 'b" where
  "and_then r k = (case r of Inl e \<Rightarrow> Inl e | Inr x \<Rightarrow> k x)"

text \<open>\<^verbatim>\<open>cities[name]\<close>: a missing key raises KeyError.\<close>

definition getitem :: "locations \<Rightarrow> string \<Rightarrow> error + coord" where
  "getitem cities name = (case cities name of None \<Rightarrow> Inl (KeyError name) | Some c \<Rightarrow> Inr c)"

text \<open>\<^verbatim>\<open>adjacency_list.get(city, [])\<close>.\<close>

definition get_neighbors :: "adjacency \<Rightarrow> string \<Rightarrow> string list" where
  "get_neighbors adj city = (case fmlookup adj city of None \<Rightarrow> [] | Some ns \<Rightarrow> ns)"

text \<open>A for loop whose body may raise: the first exception ends the loop.\<close>

fun for_each :: "('a \<Rightarrow> 's \<Rightarrow> error + 's) \<Rightarrow> 'a list \<Rightarrow> 's \<Rightarrow> error + 's" where
  "for_each body [] s = Inr s"
| "for_each body (x # xs) s =
     (case body x s of Inl e \<Rightarrow> Inl e | Inr s' \<Rightarrow> for_each body xs s')"

section \<open>The loaders\<close>

text \<open>
  \<^verbatim>\<open>load_cities\<close> reads the rows that \<^verbatim>\<open>csv.reader\<close> yields; the model takes these rows
  (\<open>None\<close> when the file does not exist) and the conversion \<^verbatim>\<open>float\<close> as a parameter
  \<open>float_of\<close>, which answers \<open>None\<close> where Python raises ValueError.  A row of fewer than
  three fields is skipped; the tuple assignment \<^verbatim>\<open>name, lat, lon = row\<close> raises ValueError
  on a row of more than three fields.
\<close>

fun load_cities_rows ::
  "(string \<Rightarrow> real option) \<Rightarrow> string list list \<Rightarrow> locations \<Rightarrow> error + locations" where
  "load_cities_rows float_of [] cities = Inr cities"
| "load_cities_rows float_of (row # rows) cities =
     (if length row < 3 then load_cities_rows float_of rows cities
      else case row of
        [name, lat, lon] \<Rightarrow>
          (case float_of lat of
             None \<Rightarrow> Inl ValueError
           | Some la \<Rightarrow>
               (case float_of lon of
                  None \<Rightarrow> Inl ValueError
                | Some lo \<Rightarrow> load_cities_rows float_of rows (cities(name \<mapsto> (la, lo)))))
      | _ \<Rightarrow> Inl ValueError)"

definition load_cities ::
  "(string \<Rightarrow> real option) \<Rightarrow> string list list option \<Rightarrow> error + locations" where
  "load_cities float_of file =
     (case file of None \<Rightarrow> Inl (SystemExit 1)
      | Some rows \<Rightarrow> load_cities_rows float_of rows Map.empty)"

text \<open>
  White space as \<^verbatim>\<open>str.strip\<close> and \<^verbatim>\<open>str.split\<close> see it, for the characters below 256:
  tab, line feed, vertical tab, form feed, carriage return, the four separators
  0x1c to 0x1f, space, 0x85 and 0xa0.
\<close>

definition is_space :: "char \<Rightarrow> bool" where
  "is_space c = (of_char c \<in> {9, 10, 11, 12, 13, 28, 29, 30, 31, 32, 133, 160 :: nat})"

definition str_strip :: "string \<Rightarrow> string" where
  "str_strip s = rev (dropWhile is_space (rev (dropWhile is_space s)))"

function str_split :: "string \<Rightarrow> string list" where
  "str_split s =
     (let s' = dropWhile is_space s in
      if s' = [] then []
      else takeWhile (\<lambda>c. \<not> is_space c) s' # str_split (dropWhile (\<lambda>c. \<not> is_space c) s'))"
  by pat_completeness auto
termination
proof (relation "measure length")
  fix s s' :: string
  assume s': "s' = dropWhile is_space s" and ne: "s' \<noteq> []"
  have "\<not> is_space (hd s')"
    using ne hd_dropWhile [of is_space s] unfolding s' by simp
  then have "dropWhile (\<lambda>c. \<not> is_space c) s' = dropWhile (\<lambda>c. \<not> is_space c) (tl s')"
    using ne by (cases s') simp_all
  then have "length (dropWhile (\<lambda>c. \<not> is_space c) s') \<le> length (tl s')"
    by (metis length_dropWhile_le)
  also have "\<dots> < length s'" using ne by (cases s') simp_all
  also have "\<dots> \<le> length s" unfolding s' by (rule length_dropWhile_le)
  finally show "(dropWhile (\<lambda>c. \<not> is_space c) s', s) \<in> measure length" by simp
qed simp

declare str_split.simps [simp del]

text \<open>\<^verbatim>\<open>adjacency_list.setdefault(k, []).append(v)\<close>.\<close>

definition append_neighbor :: "string \<Rightarrow> string \<Rightarrow> adjacency \<Rightarrow> adjacency" where
  "append_neighbor k v adj = fmupd k (get_neighbors adj k @ [v]) adj"

text \<open>
  \<^verbatim>\<open>load_adjacency\<close> reads the lines of the file.  A line of fewer than two fields is
  skipped; \<^verbatim>\<open>city1, city2 = parts\<close> raises ValueError on a line of more than two.
\<close>

fun load_adjacency_lines :: "string list \<Rightarrow> adjacency \<Rightarrow> error + adjacency" where
  "load_adjacency_lines [] adjacency_list = Inr adjacency_list"
| "load_adjacency_lines (line # lines) adjacency_list =
     (let parts = str_split (str_strip line) in
      if length parts < 2 then load_adjacency_lines lines adjacency_list
      else case parts of
        [city1, city2] \<Rightarrow>
          load_adjacency_lines lines
            (append_neighbor city2 city1 (append_neighbor city1 city2 adjacency_list))
      | _ \<Rightarrow> Inl ValueError)"

definition load_adjacency :: "string list option \<Rightarrow> error + adjacency" where
  "load_adjacency file =
     (case file of None \<Rightarrow> Inl (SystemExit 1)
      | Some lines \<Rightarrow> load_adjacency_lines lines fmempty)"

section \<open>The distance function\<close>

text \<open>\<^verbatim>\<open>math.sqrt\<close> raises ValueError on a negative argument.\<close>

definition py_sqrt :: "real \<Rightarrow> error + real" where
  "py_sqrt x = (if x < 0 then Inl ValueError else Inr (sqrt x))"

text \<open>\<^verbatim>\<open>math.atan2(y, x)\<close>: the angle of the point (x, y), in the interval from -pi to pi.\<close>

definition atan2 :: "real \<Rightarrow> real \<Rightarrow> real" where
  "atan2 y x =
     (if 0 < x then arctan (y / x)
      else if x < 0 then (if 0 \<le> y then arctan (y / x) + pi else arctan (y / x) - pi)
      else if 0 < y then pi / 2
      else if y < 0 then - pi / 2
      else 0)"

definition radians :: "real \<Rightarrow> real" where
  "radians x = x * (pi / 180)"

definition haversine :: "coord \<Rightarrow> coord \<Rightarrow> error + real" where
  "haversine coord1 coord2 =
     (let R = 6371;
          lat1 = radians (fst coord1); lon1 = radians (snd coord1);
          lat2 = radians (fst coord2); lon2 = radians (snd coord2);
          dlat = lat2 - lat1;
          dlon = lon2 - lon1;
          a = (sin (dlat / 2))\<^sup>2 + cos lat1 * cos lat2 * (sin (dlon / 2))\<^sup>2
      in and_then (py_sqrt a) (\<lambda>sa.
         and_then (py_sqrt (1 - a)) (\<lambda>sb.
         Inr (2 * R * atan2 sa sb))))"

section \<open>The uninformed searches\<close>

text \<open>
  A frontier entry is a pair of a city and the path that led to it.  The stack of
  \<^verbatim>\<open>brute_force_search\<close> and \<^verbatim>\<open>dfs\<close> is a list whose head is the top (the end of
  the Python list); the queue of \<^verbatim>\<open>bfs\<close> is a list whose head is the left end of the
  deque.  The body of the for loop is \<open>push_stack\<close>, respectively \<open>push_queue\<close>.
\<close>

type_synonym entry = "string \<times> string list"

definition push_stack :: "string list \<Rightarrow> string \<Rightarrow> entry list \<Rightarrow> entry list" where
  "push_stack path neighbor stack =
     (if neighbor \<notin> set path then (neighbor, path @ [neighbor]) # stack else stack)"

definition push_queue :: "string list \<Rightarrow> string \<Rightarrow> entry list \<Rightarrow> entry list" where
  "push_queue path neighbor queue =
     (if neighbor \<notin> set path then queue @ [(neighbor, path @ [neighbor])] else queue)"

text \<open>
  Termination of the loops: every name pushed is a neighbour in the adjacency map and is
  not yet on the path, so the number of names of the map that are not on the path drops
  with every extension.  One iteration replaces an entry by entries with fewer such
  names, which decreases the multiset of these numbers.
\<close>

definition nodes :: "adjacency \<Rightarrow> string set" where
  "nodes adj = \<Union> (set ` fmran' adj)"

definition room :: "adjacency \<Rightarrow> string list \<Rightarrow> nat" where
  "room adj path = card (nodes adj - set path)"

definition successors :: "string list \<Rightarrow> string list \<Rightarrow> entry list" where
  "successors path ns = map (\<lambda>n. (n, path @ [n])) (filter (\<lambda>n. n \<notin> set path) ns)"

definition frontier_order ::
  "((string \<times> adjacency \<times> entry list) \<times> (string \<times> adjacency \<times> entry list)) set" where
  "frontier_order =
     inv_image (mult {(x, y). x < (y::nat)}) (\<lambda>(goal, adj, fr). mset (map (\<lambda>e. room adj (snd e)) fr))"

lemma wf_frontier_order: "wf frontier_order"
  unfolding frontier_order_def
  by (intro wf_inv_image wf_mult) (simp add: wf)

lemma finite_nodes: "finite (nodes adj)"
  unfolding nodes_def fmran'_alt_def by simp

lemma get_neighbors_nodes: "set (get_neighbors adj city) \<subseteq> nodes adj"
  unfolding get_neighbors_def nodes_def
  by (auto split: option.splits dest: fmran'I [OF sym])

lemma room_extend:
  assumes "n \<in> set (get_neighbors adj city)" "n \<notin> set path"
  shows "room adj (path @ [n]) < room adj path"
proof -
  have "n \<in> nodes adj - set path" using assms get_neighbors_nodes by auto
  moreover have "nodes adj - set (path @ [n]) = (nodes adj - set path) - {n}" by auto
  ultimately show ?thesis
    unfolding room_def using finite_nodes [of adj]
    by (metis card_Diff1_less finite_Diff)
qed

lemma mult_replace_one:
  assumes "\<forall>k \<in> set new. k < (j::nat)"
  shows "(mset (new @ rest), mset (j # rest)) \<in> mult {(x, y). x < y}"
proof -
  have "(mset rest + mset new, mset rest + {#j#}) \<in> mult {(x, y). x < y}"
    using assms by (intro one_step_implies_mult) auto
  then show ?thesis by (simp add: add.commute)
qed

lemma push_decreases:
  assumes "\<forall>e \<in> set new. room adj (snd e) < room adj (snd e0)"
  shows "((goal, adj, new @ rest), (goal', adj, e0 # rest)) \<in> frontier_order"
  using mult_replace_one [of "map (\<lambda>e. room adj (snd e)) new" "room adj (snd e0)"
      "map (\<lambda>e. room adj (snd e)) rest"] assms
  unfolding frontier_order_def by simp

lemma fold_push_stack: "fold (push_stack path) ns stack = rev (successors path ns) @ stack"
  by (induction ns arbitrary: stack) (simp_all add: push_stack_def successors_def)

lemma fold_push_queue: "fold (push_queue path) ns queue = queue @ successors path ns"
  by (induction ns arbitrary: queue) (simp_all add: push_queue_def successors_def)

lemma successors_room:
  "e \<in> set (successors path (get_neighbors adj city)) \<Longrightarrow> room adj (snd e) < room adj path"
  unfolding successors_def by (auto intro: room_extend)

lemma frontier_order_perm:
  assumes "mset fr' = mset new + mset rest"
    and "\<forall>e \<in> set new. room adj (snd e) < room adj (snd e0)"
  shows "((goal, adj, fr'), (goal', adj, e0 # rest)) \<in> frontier_order"
proof -
  have "mset (map (\<lambda>e. room adj (snd e)) fr') = mset (map (\<lambda>e. room adj (snd e)) (new @ rest))"
    using assms(1) by (metis mset_append mset_map)
  then show ?thesis
    using push_decreases [OF assms(2), of goal rest goal']
    unfolding frontier_order_def by simp
qed

function brute_force_loop :: "string \<Rightarrow> adjacency \<Rightarrow> entry list \<Rightarrow> string list option" where
  "brute_force_loop goal adj [] = None"
| "brute_force_loop goal adj ((city, path) # stack) =
     (if city = goal then Some path
      else brute_force_loop goal adj (fold (push_stack path) (get_neighbors adj city) stack))"
  by pat_completeness auto
termination
proof (relation frontier_order)
  show "wf frontier_order" by (rule wf_frontier_order)
next
  fix goal :: string and adj :: adjacency and city path and stack :: "entry list"
  show "((goal, adj, fold (push_stack path) (get_neighbors adj city) stack),
         (goal, adj, (city, path) # stack)) \<in> frontier_order"
    unfolding fold_push_stack
    by (rule push_decreases) (auto dest: successors_room)
qed

definition brute_force_search ::
  "string \<Rightarrow> string \<Rightarrow> adjacency \<Rightarrow> locations \<Rightarrow> string list option" where
  "brute_force_search start goal adjacency_list cities =
     brute_force_loop goal adjacency_list [(start, [start])]"

function bfs_loop :: "string \<Rightarrow> adjacency \<Rightarrow> entry list \<Rightarrow> string list option" where
  "bfs_loop goal adj [] = None"
| "bfs_loop goal adj ((city, path) # queue) =
     (if city = goal then Some path
      else bfs_loop goal adj (fold (push_queue path) (get_neighbors adj city) queue))"
  by pat_completeness auto
termination
proof (relation frontier_order)
  show "wf frontier_order" by (rule wf_frontier_order)
next
  fix goal :: string and adj :: adjacency and city path and queue :: "entry list"
  show "((goal, adj, fold (push_queue path) (get_neighbors adj city) queue),
         (goal, adj, (city, path) # queue)) \<in> frontier_order"
    unfolding fold_push_queue
    by (rule frontier_order_perm [where new = "successors path (get_neighbors adj city)"])
      (auto dest: successors_room)
qed

definition bfs :: "string \<Rightarrow> string \<Rightarrow> adjacency \<Rightarrow> string list option" where
  "bfs start goal adjacency_list = bfs_loop goal adjacency_list [(start, [start])]"

function dfs_loop :: "string \<Rightarrow> adjacency \<Rightarrow> entry list \<Rightarrow> string list option" where
  "dfs_loop goal adj [] = None"
| "dfs_loop goal adj ((city, path) # stack) =
     (if city = goal then Some path
      else dfs_loop goal adj (fold (push_stack path) (get_neighbors adj city) stack))"
  by pat_completeness auto
termination
proof (relation frontier_order)
  show "wf frontier_order" by (rule wf_frontier_order)
next
  fix goal :: string and adj :: adjacency and city path and stack :: "entry list"
  show "((goal, adj, fold (push_stack path) (get_neighbors adj city) stack),
         (goal, adj, (city, path) # stack)) \<in> frontier_order"
    unfolding fold_push_stack
    by (rule push_decreases) (auto dest: successors_room)
qed

definition dfs :: "string \<Rightarrow> string \<Rightarrow> adjacency \<Rightarrow> string list option" where
  "dfs start goal adjacency_list = dfs_loop goal adjacency_list [(start, [start])]"

section \<open>The informed searches\<close>

text \<open>
  The priority queue of \<^verbatim>\<open>heapq\<close> is modelled by the list of its entries:
  \<^verbatim>\<open>heappush\<close> adds an entry and \<^verbatim>\<open>heappop\<close> removes the least one.  Python compares the
  tuples lexicographically (the float first, then the name, then the path, then the
  accumulated cost), which is the order of the product type here; two entries that
  compare equal are the same tuple, so the entry popped does not depend on the layout
  of the heap.
\<close>

definition heappush :: "'a list \<Rightarrow> 'a \<Rightarrow> 'a list" where
  "heappush pq x = x # pq"

definition heappop :: "'a::linorder list \<Rightarrow> 'a \<times> 'a list" where
  "heappop pq = (let m = Min (set pq) in (m, remove1 m pq))"

type_synonym bf_entry = "real \<times> string \<times> string list"

definition bf_push ::
  "locations \<Rightarrow> string \<Rightarrow> string list \<Rightarrow> string \<Rightarrow> bf_entry list \<Rightarrow> error + bf_entry list" where
  "bf_push cities goal path neighbor pq =
     (if neighbor \<notin> set path then
        and_then (getitem cities neighbor) (\<lambda>cn.
        and_then (getitem cities goal) (\<lambda>cg.
        and_then (haversine cn cg) (\<lambda>h.
        Inr (heappush pq (h, neighbor, path @ [neighbor])))))
      else Inr pq)"

definition bf_order ::
  "((locations \<times> string \<times> adjacency \<times> bf_entry list) \<times>
    (locations \<times> string \<times> adjacency \<times> bf_entry list)) set" where
  "bf_order =
     inv_image (mult {(x, y). x < (y::nat)})
       (\<lambda>(cities, goal, adj, pq). mset (map (\<lambda>e. room adj (snd (snd e))) pq))"

lemma wf_bf_order: "wf bf_order"
  unfolding bf_order_def
  by (intro wf_inv_image wf_mult) (simp add: wf)

lemma heappop_single: "heappop [x] = (x, [])"
  by (simp add: heappop_def)

lemma heappop_mset:
  assumes "pq \<noteq> []" "heappop pq = (m, rest)"
  shows "mset pq = add_mset m (mset rest)" "m \<in> set pq" "\<forall>e \<in> set pq. m \<le> e"
proof -
  have m: "m = Min (set pq)" and rest: "rest = remove1 m pq"
    using assms(2) by (auto simp: heappop_def Let_def)
  show "m \<in> set pq" using assms(1) unfolding m by simp
  then show "mset pq = add_mset m (mset rest)" unfolding rest by simp
  show "\<forall>e \<in> set pq. m \<le> e" unfolding m by simp
qed

lemma bf_for_each_shape:
  assumes "for_each (bf_push cities goal path) ns pq = Inr pq'"
  shows "\<exists>new. pq' = new @ pq \<and>
           (\<forall>e \<in> set new. \<exists>n \<in> set ns. n \<notin> set path \<and> snd e = (n, path @ [n]))"
  using assms
proof (induction ns arbitrary: pq)
  case Nil
  then show ?case by simp
next
  case (Cons n ns)
  from Cons.prems obtain pq1 where
    step: "bf_push cities goal path n pq = Inr pq1" and
    rest: "for_each (bf_push cities goal path) ns pq1 = Inr pq'"
    by (auto split: sum.splits)
  from Cons.IH [OF rest] obtain new where
    new: "pq' = new @ pq1"
      "\<forall>e \<in> set new. \<exists>n \<in> set ns. n \<notin> set path \<and> snd e = (n, path @ [n])"
    by blast
  show ?case
  proof (cases "n \<in> set path")
    case True
    with step have "pq1 = pq" by (simp add: bf_push_def)
    with new show ?thesis by auto
  next
    case False
    with step obtain h where "pq1 = (h, n, path @ [n]) # pq"
      by (auto simp: bf_push_def and_then_def heappush_def split: sum.splits)
    with new False have "pq' = (new @ [(h, n, path @ [n])]) @ pq"
      "\<forall>e \<in> set (new @ [(h, n, path @ [n])]).
          \<exists>m \<in> set (n # ns). m \<notin> set path \<and> snd e = (m, path @ [m])"
      by auto
    then show ?thesis by blast
  qed
qed

function best_first_loop ::
  "locations \<Rightarrow> string \<Rightarrow> adjacency \<Rightarrow> bf_entry list \<Rightarrow> error + string list option" where
  "best_first_loop cities goal adj pq =
     (if pq = [] then Inr None
      else case heappop pq of
        ((h, city, path), rest) \<Rightarrow>
          if city = goal then Inr (Some path)
          else (case for_each (bf_push cities goal path) (get_neighbors adj city) rest of
                  Inl e \<Rightarrow> Inl e
                | Inr pq' \<Rightarrow> best_first_loop cities goal adj pq'))"
  by pat_completeness auto
termination
proof (relation bf_order)
  show "wf bf_order" by (rule wf_bf_order)
next
  fix cities :: locations and goal :: string and adj :: adjacency
    and pq rest pq' :: "bf_entry list" and top :: bf_entry and tl2 :: "string \<times> string list"
    and h :: real and city :: string and path :: "string list"
  assume ne: "pq \<noteq> []" and pop: "(top, rest) = heappop pq" and top: "(h, tl2) = top"
    and tl2: "(city, path) = tl2"
    and loop: "for_each (bf_push cities goal path) (get_neighbors adj city) rest = Inr pq'"
  from bf_for_each_shape [OF loop] obtain new where
    new: "pq' = new @ rest"
      "\<forall>e \<in> set new. \<exists>n \<in> set (get_neighbors adj city).
          n \<notin> set path \<and> snd e = (n, path @ [n])"
    by blast
  have small: "\<forall>k \<in> set (map (\<lambda>e. room adj (snd (snd e))) new). k < room adj path"
    using new(2) by (auto dest!: bspec intro: room_extend)
  have "mset pq = add_mset (h, city, path) (mset rest)"
    using heappop_mset(1) [OF ne, of top rest] pop top tl2 by simp
  then have "mset (map (\<lambda>e. room adj (snd (snd e))) pq)
      = mset (room adj path # map (\<lambda>e. room adj (snd (snd e))) rest)"
    by (metis (no_types, lifting) image_mset_add_mset mset.simps(2) mset_map snd_conv)
  then show "((cities, goal, adj, pq'), (cities, goal, adj, pq)) \<in> bf_order"
    using mult_replace_one [OF small, of "map (\<lambda>e. room adj (snd (snd e))) rest"]
    unfolding bf_order_def new(1) by simp
qed

declare best_first_loop.simps [simp del]

definition best_first_search ::
  "string \<Rightarrow> string \<Rightarrow> adjacency \<Rightarrow> locations \<Rightarrow> error + string list option" where
  "best_first_search start goal adjacency_list cities =
     and_then (getitem cities start) (\<lambda>cs.
     and_then (getitem cities goal) (\<lambda>cg.
     and_then (haversine cs cg) (\<lambda>h.
     best_first_loop cities goal adjacency_list [(h, start, [start])])))"

text \<open>
  An entry of the queue of \<^verbatim>\<open>a_star_search\<close> is (f, city, path, g).  The loop need not
  terminate on an arbitrary queue and cost table, so its result is optional: \<open>None\<close>
  stands for a run that never returns.
\<close>

type_synonym astar_entry = "real \<times> string \<times> string list \<times> real"
type_synonym astar_state = "(string \<rightharpoonup> real) \<times> astar_entry list"

definition astar_relax ::
  "locations \<Rightarrow> string \<Rightarrow> string \<Rightarrow> string list \<Rightarrow> real \<Rightarrow> string \<Rightarrow> astar_state
     \<Rightarrow> error + astar_state" where
  "astar_relax cities goal city path g neighbor st =
     (case st of (visited, pq) \<Rightarrow>
        and_then (getitem cities city) (\<lambda>cc.
        and_then (getitem cities neighbor) (\<lambda>cn.
        and_then (haversine cc cn) (\<lambda>d.
        let new_g = g + d in
        and_then (getitem cities goal) (\<lambda>cg.
        and_then (haversine cn cg) (\<lambda>h.
        let new_f = new_g + h in
        if (case visited neighbor of None \<Rightarrow> True | Some v \<Rightarrow> new_g < v)
        then Inr (visited(neighbor \<mapsto> new_g),
                  heappush pq (new_f, neighbor, path @ [neighbor], new_g))
        else Inr (visited, pq)))))))"

lemma case_sum_mono [partial_function_mono]:
  assumes "\<And>e. monotone orda ordb (\<lambda>f. A f e)" "\<And>x. monotone orda ordb (\<lambda>f. B f x)"
  shows "monotone orda ordb (\<lambda>f. case s of Inl e \<Rightarrow> A f e | Inr x \<Rightarrow> B f x)"
  using assms by (cases s) simp_all

lemma case_prod_mono [partial_function_mono]:
  assumes "\<And>a b. monotone orda ordb (\<lambda>f. C f a b)"
  shows "monotone orda ordb (\<lambda>f. case p of (a, b) \<Rightarrow> C f a b)"
  using assms by (cases p) simp_all

partial_function (option) a_star_loop ::
  "locations \<Rightarrow> string \<Rightarrow> adjacency \<Rightarrow> astar_state \<Rightarrow> (error + string list option) option" where
  "a_star_loop cities goal adj st =
     (case st of (visited, pq) \<Rightarrow>
        if pq = [] then Some (Inr None)
        else case heappop pq of
          ((f, city, path, g), rest) \<Rightarrow>
            if city = goal then Some (Inr (Some path))
            else (case for_each (astar_relax cities goal city path g)
                         (get_neighbors adj city) (visited, rest) of
                    Inl e \<Rightarrow> Some (Inl e)
                  | Inr st' \<Rightarrow> a_star_loop cities goal adj st'))"

definition a_star_search ::
  "string \<Rightarrow> string \<Rightarrow> adjacency \<Rightarrow> locations \<Rightarrow> (error + string list option) option" where
  "a_star_search start goal adjacency_list cities =
     a_star_loop cities goal adjacency_list (Map.empty, [(0, start, [start], 0)])"



section \<open>Properties of the distance function\<close>

text \<open>
  Over the reals the argument of the first square root is half of one minus the inner
  product of two unit vectors, so both square roots are defined and the distance is the
  Earth radius times the angle between the two points on the unit sphere.
\<close>

definition hav_a :: "coord \<Rightarrow> coord \<Rightarrow> real" where
  "hav_a coord1 coord2 =
     (sin ((radians (fst coord2) - radians (fst coord1)) / 2))\<^sup>2
       + cos (radians (fst coord1)) * cos (radians (fst coord2))
         * (sin ((radians (snd coord2) - radians (snd coord1)) / 2))\<^sup>2"

definition hav :: "coord \<Rightarrow> coord \<Rightarrow> real" where
  "hav coord1 coord2 = 2 * 6371 * atan2 (sqrt (hav_a coord1 coord2)) (sqrt (1 - hav_a coord1 coord2))"

definition dot3 :: "real \<times> real \<times> real \<Rightarrow> real \<times> real \<times> real \<Rightarrow> real" where
  "dot3 u v = fst u * fst v + fst (snd u) * fst (snd v) + snd (snd u) * snd (snd v)"

definition sphere :: "coord \<Rightarrow> real \<times> real \<times> real" where
  "sphere c = (cos (radians (fst c)) * cos (radians (snd c)),
               cos (radians (fst c)) * sin (radians (snd c)),
               sin (radians (fst c)))"

lemma cauchy3:
  fixes x1 x2 x3 y1 y2 y3 :: real
  shows "(x1 * y1 + x2 * y2 + x3 * y3)\<^sup>2 \<le> (x1\<^sup>2 + x2\<^sup>2 + x3\<^sup>2) * (y1\<^sup>2 + y2\<^sup>2 + y3\<^sup>2)"
proof -
  have "(x1\<^sup>2 + x2\<^sup>2 + x3\<^sup>2) * (y1\<^sup>2 + y2\<^sup>2 + y3\<^sup>2) - (x1 * y1 + x2 * y2 + x3 * y3)\<^sup>2
      = (x1 * y2 - x2 * y1)\<^sup>2 + (x1 * y3 - x3 * y1)\<^sup>2 + (x2 * y3 - x3 * y2)\<^sup>2"
    by (simp add: power2_eq_square algebra_simps)
  moreover have "0 \<le> (x1 * y2 - x2 * y1)\<^sup>2 + (x1 * y3 - x3 * y1)\<^sup>2 + (x2 * y3 - x3 * y2)\<^sup>2"
    by simp
  ultimately show ?thesis by linarith
qed

lemma dot3_cauchy: "(dot3 u v)\<^sup>2 \<le> dot3 u u * dot3 v v"
  using cauchy3 [of "fst u" "fst v" "fst (snd u)" "fst (snd v)" "snd (snd u)" "snd (snd v)"]
  by (simp add: dot3_def power2_eq_square)

lemma sphere_unit: "dot3 (sphere c) (sphere c) = 1"
proof -
  define cp sp cl sl where "cp = cos (radians (fst c))" and "sp = sin (radians (fst c))"
    and "cl = cos (radians (snd c))" and "sl = sin (radians (snd c))"
  have p: "sp\<^sup>2 + cp\<^sup>2 = 1" and l: "sl\<^sup>2 + cl\<^sup>2 = 1"
    unfolding cp_def sp_def cl_def sl_def by simp_all
  have "dot3 (sphere c) (sphere c) = cp * cl * (cp * cl) + cp * sl * (cp * sl) + sp * sp"
    unfolding dot3_def sphere_def cp_def sp_def cl_def sl_def by simp
  also have "\<dots> = cp\<^sup>2 * (sl\<^sup>2 + cl\<^sup>2) + sp\<^sup>2"
    by (simp add: power2_eq_square algebra_simps)
  also have "\<dots> = 1" unfolding l using p by simp
  finally show ?thesis .
qed

lemma dot3_sphere_bounds: "- 1 \<le> dot3 (sphere c) (sphere d)" "dot3 (sphere c) (sphere d) \<le> 1"
proof -
  have "(dot3 (sphere c) (sphere d))\<^sup>2 \<le> 1"
    using dot3_cauchy [of "sphere c" "sphere d"] by (simp add: sphere_unit)
  then have "\<bar>dot3 (sphere c) (sphere d)\<bar> \<le> 1"
    by (simp add: abs_square_le_1)
  then show "- 1 \<le> dot3 (sphere c) (sphere d)" "dot3 (sphere c) (sphere d) \<le> 1" by linarith+
qed

lemma sin_half_sq: "(sin (x / 2))\<^sup>2 = (1 - cos x) / (2::real)"
  using cos_double_sin [of "x / 2"] by simp

lemma hav_a_dot: "hav_a c d = (1 - dot3 (sphere c) (sphere d)) / 2"
proof -
  define p1 where "p1 = radians (fst c)"
  define p2 where "p2 = radians (fst d)"
  define l1 where "l1 = radians (snd c)"
  define l2 where "l2 = radians (snd d)"
  have "hav_a c d = (1 - cos (p2 - p1)) / 2 + cos p1 * cos p2 * ((1 - cos (l2 - l1)) / 2)"
    unfolding hav_a_def sin_half_sq p1_def p2_def l1_def l2_def by simp
  also have "\<dots> = (1 - (cos p1 * cos p2 * cos (l2 - l1) + sin p1 * sin p2)) / 2"
    unfolding cos_diff [of p2 p1] by (simp add: field_simps)
  also have "\<dots> = (1 - (cos p1 * cos l1 * (cos p2 * cos l2) + cos p1 * sin l1 * (cos p2 * sin l2)
                        + sin p1 * sin p2)) / 2"
    unfolding cos_diff [of l2 l1] by (simp add: algebra_simps)
  also have "\<dots> = (1 - dot3 (sphere c) (sphere d)) / 2"
    by (simp add: dot3_def sphere_def p1_def p2_def l1_def l2_def)
  finally show ?thesis .
qed

lemma hav_a_range: "0 \<le> hav_a c d" "hav_a c d \<le> 1"
  using dot3_sphere_bounds [of c d] by (simp_all add: hav_a_dot)

lemma haversine_eq: "haversine c d = Inr (hav c d)"
  using hav_a_range [of c d]
  by (simp add: haversine_def hav_def hav_a_def [symmetric] Let_def and_then_def py_sqrt_def)

lemma atan2_half_angle:
  assumes "0 \<le> t" "t \<le> pi / 2"
  shows "atan2 (sin t) (cos t) = t"
proof (cases "t = pi / 2")
  case True
  have "sin (pi / 2) = (1::real)" "cos (pi / 2) = (0::real)" by simp_all
  then show ?thesis unfolding True atan2_def by simp
next
  case False
  with assms have lt: "t < pi / 2" by simp
  then have "0 < cos t" using assms by (simp add: cos_gt_zero_pi)
  moreover have "arctan (sin t / cos t) = t"
    using arctan_tan [of t] lt assms by (simp add: tan_def)
  ultimately show ?thesis by (simp add: atan2_def)
qed

lemma hav_arccos: "hav c d = 6371 * arccos (dot3 (sphere c) (sphere d))"
proof -
  define x where "x = dot3 (sphere c) (sphere d)"
  define t where "t = arccos x / 2"
  have x: "- 1 \<le> x" "x \<le> 1" unfolding x_def by (rule dot3_sphere_bounds)+
  have t: "0 \<le> t" "t \<le> pi / 2"
    unfolding t_def using arccos_lbound [OF x] arccos_ubound [OF x] by simp_all
  have cosx: "cos (2 * t) = x" unfolding t_def using x by simp
  have a: "hav_a c d = (sin t)\<^sup>2"
    using sin_half_sq [of "2 * t"] cosx by (simp add: hav_a_dot x_def)
  have a': "1 - hav_a c d = (cos t)\<^sup>2"
    unfolding a using sin_cos_squared_add [of t] by linarith
  have "0 \<le> sin t" using t by (simp add: sin_ge_zero)
  then have s: "sqrt (hav_a c d) = sin t" unfolding a by simp
  have "0 \<le> cos t" using t by (simp add: cos_ge_zero)
  then have c: "sqrt (1 - hav_a c d) = cos t" unfolding a' by simp
  show ?thesis
    unfolding hav_def s c atan2_half_angle [OF t] by (simp add: t_def x_def)
qed

lemma hav_nonneg: "0 \<le> hav c d"
  unfolding hav_arccos using arccos_lbound [OF dot3_sphere_bounds] by simp

lemma hav_self: "hav c c = 0"
  unfolding hav_arccos sphere_unit by simp









section \<open>Brute force and depth first\<close>

lemma dfs_loop_eq_brute_force_loop: "dfs_loop goal adj stack = brute_force_loop goal adj stack"
  by (induction goal adj stack rule: brute_force_loop.induct) simp_all

section \<open>Properties of the loaders\<close>

text \<open>
  What the adjacency file says about a name: the other city of every two-field line in
  which the name occurs, in file order (a line naming the city twice gives it twice).
\<close>

definition partners :: "string \<Rightarrow> string list \<Rightarrow> string list" where
  "partners name lines =
     concat (map (\<lambda>line. case str_split (str_strip line) of
                    [city1, city2] \<Rightarrow>
                      (if city1 = name then [city2] else []) @ (if city2 = name then [city1] else [])
                  | _ \<Rightarrow> []) lines)"

lemma partners_Nil: "partners name [] = []"
  by (simp add: partners_def)

lemma partners_Cons_short:
  "length (str_split (str_strip line)) < 2 \<Longrightarrow> partners name (line # lines) = partners name lines"
  by (auto simp: partners_def split: list.splits)

lemma partners_Cons_pair:
  "str_split (str_strip line) = [city1, city2] \<Longrightarrow>
   partners name (line # lines) =
     (if city1 = name then [city2] else []) @ (if city2 = name then [city1] else [])
       @ partners name lines"
  by (simp add: partners_def)

lemma fmlookup_append_neighbor:
  "fmlookup (append_neighbor k v adj) x =
     (if x = k then Some (get_neighbors adj k @ [v]) else fmlookup adj x)"
  by (simp add: append_neighbor_def)

lemma get_neighbors_append_neighbor:
  "get_neighbors (append_neighbor k v adj) x =
     (if x = k then get_neighbors adj k @ [v] else get_neighbors adj x)"
  by (simp add: get_neighbors_def fmlookup_append_neighbor)

lemma load_adjacency_lines_lookup:
  assumes "load_adjacency_lines lines adj0 = Inr adj"
  shows "fmlookup adj name =
           (if partners name lines = [] then fmlookup adj0 name
            else Some (get_neighbors adj0 name @ partners name lines))"
  using assms
proof (induction lines arbitrary: adj0)
  case Nil
  then show ?case by (simp add: partners_Nil)
next
  case (Cons line lines)
  show ?case
  proof (cases "length (str_split (str_strip line)) < 2")
    case True
    with Cons.prems have "load_adjacency_lines lines adj0 = Inr adj" by simp
    from Cons.IH [OF this] show ?thesis by (simp add: partners_Cons_short [OF True])
  next
    case False
    with Cons.prems obtain city1 city2 where
      parts: "str_split (str_strip line) = [city1, city2]" and
      rest: "load_adjacency_lines lines
               (append_neighbor city2 city1 (append_neighbor city1 city2 adj0)) = Inr adj"
      by (cases "str_split (str_strip line)" rule: list.exhaust)
        (auto simp: Let_def split: list.splits)
    show ?thesis
      unfolding Cons.IH [OF rest] partners_Cons_pair [OF parts]
      by (auto simp: fmlookup_append_neighbor get_neighbors_append_neighbor get_neighbors_def
          split: option.splits)
  qed
qed

lemma partners_mem:
  assumes "line \<in> set lines" "str_split (str_strip line) = [city1, city2]"
  shows "city2 \<in> set (partners city1 lines)" "city1 \<in> set (partners city2 lines)"
  using assms by (auto simp: partners_def intro!: bexI [of _ line])

lemma load_cities_rows_dom:
  assumes "load_cities_rows float_of rows m = Inr cities"
  shows "dom cities = dom m \<union> {name. \<exists>lat lon. [name, lat, lon] \<in> set rows}"
  using assms
proof (induction rows arbitrary: m)
  case Nil
  then show ?case by auto
next
  case (Cons row rows)
  show ?case
  proof (cases "length row < 3")
    case True
    with Cons.prems have "load_cities_rows float_of rows m = Inr cities" by simp
    from Cons.IH [OF this] True show ?thesis by auto
  next
    case False
    with Cons.prems obtain name lat lon la lo where
      row: "row = [name, lat, lon]" and
      rest: "load_cities_rows float_of rows (m(name \<mapsto> (la, lo))) = Inr cities"
      by (auto split: list.splits option.splits)
    have d: "dom (m(name \<mapsto> (la, lo))) = insert name (dom m)"
      by simp
    have "dom cities = insert name (dom m) \<union> {n. \<exists>a b. [n, a, b] \<in> set rows}"
      using Cons.IH [OF rest] unfolding d .
    also have "\<dots> = dom m \<union> {n. \<exists>a b. [n, a, b] \<in> set (row # rows)}"
      unfolding row by auto
    finally show ?thesis .
  qed
qed

lemma load_cities_rows_keeps:
  assumes "load_cities_rows float_of rows m = Inr cities"
    and "\<forall>row \<in> set rows. length row = 3 \<longrightarrow> hd row \<noteq> name"
  shows "cities name = m name"
  using assms
proof (induction rows arbitrary: m)
  case Nil
  then show ?case by simp
next
  case (Cons row rows)
  show ?case
  proof (cases "length row < 3")
    case True
    with Cons.prems have "load_cities_rows float_of rows m = Inr cities" by simp
    from Cons.IH [OF this] Cons.prems(2) show ?thesis by simp
  next
    case False
    with Cons.prems(1) obtain name' lat lon la lo where
      row: "row = [name', lat, lon]" and
      rest: "load_cities_rows float_of rows (m(name' \<mapsto> (la, lo))) = Inr cities"
      by (auto split: list.splits option.splits)
    from Cons.prems(2) row have "name' \<noteq> name" by simp
    with Cons.IH [OF rest] Cons.prems(2) show ?thesis by simp
  qed
qed

lemma load_cities_rows_last:
  assumes "load_cities_rows float_of (before @ [name, lat, lon] # after) m = Inr cities"
    and "\<forall>row \<in> set after. length row = 3 \<longrightarrow> hd row \<noteq> name"
  shows "\<exists>la lo. float_of lat = Some la \<and> float_of lon = Some lo \<and> cities name = Some (la, lo)"
  using assms(1)
proof (induction before arbitrary: m)
  case Nil
  then obtain la lo where
    f: "float_of lat = Some la" "float_of lon = Some lo" and
    rest: "load_cities_rows float_of after (m(name \<mapsto> (la, lo))) = Inr cities"
    by (auto split: option.splits)
  from load_cities_rows_keeps [OF rest assms(2)] f show ?case by simp
next
  case (Cons row before)
  show ?case
  proof (cases "length row < 3")
    case True
    with Cons.prems
    have "load_cities_rows float_of (before @ [name, lat, lon] # after) m = Inr cities"
      by simp
    then show ?thesis by (rule Cons.IH)
  next
    case False
    with Cons.prems obtain name' la lo where
      "load_cities_rows float_of (before @ [name, lat, lon] # after) (m(name' \<mapsto> (la, lo)))
         = Inr cities"
      by (auto split: list.splits option.splits)
    then show ?thesis by (rule Cons.IH)
  qed
qed

lemma load_cities_rows_filter:
  "load_cities_rows float_of (filter (\<lambda>row. \<not> length row < 3) rows) m
     = load_cities_rows float_of rows m"
  by (induction rows arbitrary: m) (auto split: list.splits option.splits)

lemma load_adjacency_lines_filter:
  "load_adjacency_lines (filter (\<lambda>line. \<not> length (str_split (str_strip line)) < 2) lines) adj
     = load_adjacency_lines lines adj"
  by (induction lines arbitrary: adj) (auto simp: Let_def split: list.splits)

section \<open>Paths of the graph and soundness of the uninformed searches\<close>

fun is_walk :: "adjacency \<Rightarrow> string list \<Rightarrow> bool" where
  "is_walk adj [] = False"
| "is_walk adj [x] = True"
| "is_walk adj (x # y # zs) = (y \<in> set (get_neighbors adj x) \<and> is_walk adj (y # zs))"

definition connects :: "adjacency \<Rightarrow> string \<Rightarrow> string \<Rightarrow> string list \<Rightarrow> bool" where
  "connects adj start goal p = (is_walk adj p \<and> hd p = start \<and> last p = goal)"

definition simple_path :: "adjacency \<Rightarrow> string \<Rightarrow> string \<Rightarrow> string list \<Rightarrow> bool" where
  "simple_path adj start goal p = (connects adj start goal p \<and> distinct p)"

definition reachable :: "adjacency \<Rightarrow> string \<Rightarrow> string \<Rightarrow> bool" where
  "reachable adj start goal = (\<exists>p. connects adj start goal p)"

definition edge_count :: "string list \<Rightarrow> nat" where
  "edge_count p = length p - 1"

lemma is_walk_nonempty: "is_walk adj p \<Longrightarrow> p \<noteq> []"
  by (cases p) simp_all

lemma is_walk_snoc:
  "is_walk adj p \<Longrightarrow> n \<in> set (get_neighbors adj (last p)) \<Longrightarrow> is_walk adj (p @ [n])"
  by (induction adj p rule: is_walk.induct) simp_all

lemma is_walk_suffix: "is_walk adj (a @ b) \<Longrightarrow> b \<noteq> [] \<Longrightarrow> is_walk adj b"
proof (induction a)
  case Nil
  then show ?case by simp
next
  case (Cons x a)
  then show ?case by (cases "a @ b") simp_all
qed

lemma is_walk_prefix: "is_walk adj (a @ b) \<Longrightarrow> a \<noteq> [] \<Longrightarrow> is_walk adj a"
proof (induction adj a rule: is_walk.induct)
  case (3 adj x y zs)
  then show ?case by simp
qed simp_all

lemma is_walk_step:
  "is_walk adj (a @ n # b) \<Longrightarrow> a \<noteq> [] \<Longrightarrow> n \<in> set (get_neighbors adj (last a))"
proof (induction adj a rule: is_walk.induct)
  case (3 adj x y zs)
  then show ?case by simp
qed simp_all

lemma is_walk_Cons:
  "is_walk adj p \<Longrightarrow> hd p \<in> set (get_neighbors adj x) \<Longrightarrow> is_walk adj (x # p)"
  by (cases p) simp_all


lemma connects_snoc:
  "connects adj start c p \<Longrightarrow> n \<in> set (get_neighbors adj c) \<Longrightarrow> connects adj start n (p @ [n])"
  unfolding connects_def using is_walk_nonempty [of adj p] by (auto intro: is_walk_snoc)


text \<open>Cutting the cycles out of a walk leaves a simple path that is no longer.\<close>

lemma walk_to_simple:
  assumes "is_walk adj q"
  shows "\<exists>p. is_walk adj p \<and> hd p = hd q \<and> last p = last q \<and> distinct p \<and> length p \<le> length q"
  using assms
proof (induction adj q rule: is_walk.induct)
  case (1 adj)
  then show ?case by simp
next
  case (2 adj x)
  show ?case by (rule exI [of _ "[x]"]) simp
next
  case (3 adj x y zs)
  then obtain p where p: "is_walk adj p" "hd p = y" "last p = last (y # zs)" "distinct p"
    "length p \<le> length (y # zs)"
    by auto
  show ?case
  proof (cases "x \<in> set p")
    case False
    have "is_walk adj (x # p)" using p(1,2) "3.prems" by (intro is_walk_Cons) simp_all
    moreover have "last (x # p) = last (x # y # zs)" using p(3) is_walk_nonempty [OF p(1)] by simp
    ultimately show ?thesis using p False by (intro exI [of _ "x # p"]) simp
  next
    case True
    then obtain a b where ab: "p = a @ x # b" by (auto dest: split_list)
    have "is_walk adj (x # b)" using p(1) unfolding ab by (rule is_walk_suffix) simp
    moreover have "last (x # b) = last (x # y # zs)" using p(3) unfolding ab by simp
    moreover have "distinct (x # b)" using p(4) unfolding ab by simp
    moreover have "length (x # b) \<le> length (x # y # zs)" using p(5) unfolding ab by simp
    ultimately show ?thesis by (intro exI [of _ "x # b"]) simp
  qed
qed

lemma connects_to_simple:
  assumes "connects adj start goal q"
  shows "\<exists>p. simple_path adj start goal p \<and> length p \<le> length q"
  using walk_to_simple [of adj q] assms unfolding simple_path_def connects_def by auto

text \<open>Entries of a frontier: the path is a simple path from the start to the entry's city.\<close>

definition good_entry :: "adjacency \<Rightarrow> string \<Rightarrow> entry \<Rightarrow> bool" where
  "good_entry adj start e = simple_path adj start (fst e) (snd e)"

lemma good_entry_start: "good_entry adj start (start, [start])"
  by (simp add: good_entry_def simple_path_def connects_def)

lemma good_successors:
  assumes "good_entry adj start (city, path)"
    and "e \<in> set (successors path (get_neighbors adj city))"
  shows "good_entry adj start e"
proof -
  from assms(2) obtain n where n: "e = (n, path @ [n])" "n \<in> set (get_neighbors adj city)"
    "n \<notin> set path"
    by (auto simp: successors_def)
  with assms(1) connects_snoc [of adj start city path n] show ?thesis
    by (simp add: good_entry_def simple_path_def)
qed

lemma brute_force_loop_sound:
  assumes "brute_force_loop goal adj stack = Some p" "\<forall>e \<in> set stack. good_entry adj start e"
  shows "simple_path adj start goal p"
  using assms
proof (induction goal adj stack rule: brute_force_loop.induct)
  case (1 goal adj)
  then show ?case by simp
next
  case (2 goal adj city path stack)
  show ?case
  proof (cases "city = goal")
    case True
    with "2.prems" show ?thesis by (simp add: good_entry_def)
  next
    case False
    have "\<forall>e \<in> set (fold (push_stack path) (get_neighbors adj city) stack). good_entry adj start e"
      unfolding fold_push_stack using "2.prems"(2) by (auto intro: good_successors)
    with "2.IH" [OF False] "2.prems"(1) False show ?thesis by simp
  qed
qed

lemma bfs_loop_sound:
  assumes "bfs_loop goal adj queue = Some p" "\<forall>e \<in> set queue. good_entry adj start e"
  shows "simple_path adj start goal p"
  using assms
proof (induction goal adj queue rule: bfs_loop.induct)
  case (1 goal adj)
  then show ?case by simp
next
  case (2 goal adj city path queue)
  show ?case
  proof (cases "city = goal")
    case True
    with "2.prems" show ?thesis by (simp add: good_entry_def)
  next
    case False
    have "\<forall>e \<in> set (fold (push_queue path) (get_neighbors adj city) queue). good_entry adj start e"
      unfolding fold_push_queue using "2.prems"(2) by (auto intro: good_successors)
    with "2.IH" [OF False] "2.prems"(1) False show ?thesis by simp
  qed
qed

section \<open>Breadth first search finds a shortest path\<close>

text \<open>
  The queue of \<^verbatim>\<open>bfs\<close> holds the paths in order of length, and no path in it is more
  than one step longer than the first.
\<close>

definition bfs_layers :: "entry list \<Rightarrow> bool" where
  "bfs_layers queue =
     (sorted (map (\<lambda>e. length (snd e)) queue)
      \<and> (\<forall>e \<in> set queue. length (snd e) \<le> Suc (length (snd (hd queue)))))"

lemma successors_shape:
  "e \<in> set (successors path ns) \<Longrightarrow>
     \<exists>n \<in> set ns. n \<notin> set path \<and> e = (n, path @ [n])"
  by (auto simp: successors_def)

lemma sorted_map_const: "\<forall>x \<in> set xs. f x = (k::nat) \<Longrightarrow> sorted (map f xs)"
  by (induction xs) auto

lemma bfs_layers_step:
  assumes "bfs_layers ((city, path) # queue)"
  shows "bfs_layers (queue @ successors path ns)"
proof -
  let ?len = "\<lambda>e::entry. length (snd e)"
  from assms have sorted: "sorted (map ?len queue)"
    and low: "\<forall>e \<in> set queue. length path \<le> ?len e"
    and high: "\<forall>e \<in> set queue. ?len e \<le> Suc (length path)"
    by (auto simp: bfs_layers_def)
  have succ: "\<forall>e \<in> set (successors path ns). ?len e = Suc (length path)"
    by (auto dest: successors_shape)
  have all_low: "\<forall>e \<in> set (queue @ successors path ns). length path \<le> ?len e"
    using low succ by auto
  have all_high: "\<forall>e \<in> set (queue @ successors path ns). ?len e \<le> Suc (length path)"
    using high succ by auto
  have "sorted (map ?len (queue @ successors path ns))"
    using sorted high succ sorted_map_const [OF succ] by (auto simp: sorted_append)
  moreover have "\<forall>e \<in> set (queue @ successors path ns).
      ?len e \<le> Suc (?len (hd (queue @ successors path ns)))"
  proof (cases "queue @ successors path ns")
    case Nil
    then show ?thesis by simp
  next
    case (Cons e0 rest)
    then have "e0 \<in> set (queue @ successors path ns)" by simp
    with all_low have "length path \<le> ?len e0" by blast
    with all_high show ?thesis unfolding Cons by fastforce
  qed
  ultimately show ?thesis unfolding bfs_layers_def by blast
qed

lemma bfs_loop_minimal:
  assumes "bfs_layers queue"
    and "\<forall>e \<in> set queue. snd e \<noteq> [] \<and> fst e = last (snd e)"
    and "is_walk adj q" "distinct q" "last q = goal"
    and "\<exists>e \<in> set queue. \<exists>r. q = snd e @ r"
  shows "\<exists>p. bfs_loop goal adj queue = Some p \<and> length p \<le> length q"
  using assms
proof (induction goal adj queue rule: bfs_loop.induct)
  case (1 goal adj)
  then show ?case by simp
next
  case (2 goal adj city path queue)
  from "2.prems"(6) obtain e r where e: "e \<in> set ((city, path) # queue)" "q = snd e @ r"
    by blast
  have path: "path \<noteq> []" "city = last path" using "2.prems"(2) by auto
  show ?case
  proof (cases "city = goal")
    case True
    have "length path \<le> length (snd e)"
      using "2.prems"(1) e(1) by (auto simp: bfs_layers_def)
    with e(2) True show ?thesis by simp
  next
    case False
    let ?queue' = "fold (push_queue path) (get_neighbors adj city) queue"
    have q': "?queue' = queue @ successors path (get_neighbors adj city)"
      by (rule fold_push_queue)
    have layers: "bfs_layers ?queue'"
      unfolding q' using "2.prems"(1) by (rule bfs_layers_step)
    have ends: "\<forall>e \<in> set ?queue'. snd e \<noteq> [] \<and> fst e = last (snd e)"
      unfolding q' using "2.prems"(2) by (auto dest: successors_shape)
    have "\<exists>e' \<in> set ?queue'. \<exists>r'. q = snd e' @ r'"
    proof (cases "e = (city, path)")
      case False
      with e show ?thesis unfolding q' by auto
    next
      case True
      with e(2) have q: "q = path @ r" by simp
      have "r \<noteq> []"
      proof
        assume "r = []"
        with q "2.prems"(5) path \<open>city \<noteq> goal\<close> show False by simp
      qed
      then obtain n r' where r: "r = n # r'" by (cases r) auto
      have "n \<in> set (get_neighbors adj city)"
        using is_walk_step [of adj path n r'] "2.prems"(3) path unfolding q r by simp
      moreover have "n \<notin> set path" using "2.prems"(4) unfolding q r by auto
      ultimately have "(n, path @ [n]) \<in> set (successors path (get_neighbors adj city))"
        by (auto simp: successors_def)
      moreover have "q = snd (n, path @ [n]) @ r'" unfolding q r by simp
      ultimately show ?thesis unfolding q' by (intro bexI [of _ "(n, path @ [n])"] exI [of _ r']) auto
    qed
    from "2.IH" [OF False layers ends "2.prems"(3,4,5) this] False show ?thesis by simp
  qed
qed

lemma bfs_finds_shortest:
  assumes "connects adj start goal q"
  shows "\<exists>p. bfs start goal adj = Some p \<and> simple_path adj start goal p \<and> length p \<le> length q"
proof -
  from connects_to_simple [OF assms] obtain s where
    s: "simple_path adj start goal s" "length s \<le> length q" by blast
  then have w: "is_walk adj s" "distinct s" "last s = goal" "hd s = start"
    by (simp_all add: simple_path_def connects_def)
  then obtain r where r: "s = start # r" using is_walk_nonempty [of adj s] by (cases s) auto
  have "\<exists>p. bfs_loop goal adj [(start, [start])] = Some p \<and> length p \<le> length s"
    using w(1,2,3) by (rule bfs_loop_minimal [rotated 2]) (simp_all add: bfs_layers_def r)
  then obtain p where p: "bfs start goal adj = Some p" "length p \<le> length s"
    unfolding bfs_def by blast
  have "simple_path adj start goal p"
    using p(1) unfolding bfs_def by (rule bfs_loop_sound) (simp add: good_entry_start)
  with p s(2) show ?thesis by auto
qed

text \<open>A square A-B-D-C-A: two paths of two edges lead from A to D.\<close>

definition square :: adjacency where
  "square = fmupd ''A'' [''B'', ''C''] (fmupd ''B'' [''A'', ''D'']
           (fmupd ''C'' [''A'', ''D''] (fmupd ''D'' [''B'', ''C''] fmempty)))"

section \<open>Soundness of best first search\<close>

text \<open>Entries of the queue of \<^verbatim>\<open>best_first_search\<close>.\<close>

definition bf_good :: "locations \<Rightarrow> adjacency \<Rightarrow> string \<Rightarrow> bf_entry \<Rightarrow> bool" where
  "bf_good cities adj start e =
     (good_entry adj start (snd e) \<and> set (snd (snd e)) \<subseteq> dom cities)"

lemma getitem_Inr: "getitem cities name = Inr c \<longleftrightarrow> cities name = Some c"
  by (simp add: getitem_def split: option.splits)

lemma getitem_Inl: "getitem cities name = Inl e \<longleftrightarrow> cities name = None \<and> e = KeyError name"
  by (auto simp: getitem_def split: option.splits)

lemma and_then_Inr: "and_then r k = Inr y \<longleftrightarrow> (\<exists>x. r = Inr x \<and> k x = Inr y)"
  by (cases r) (simp_all add: and_then_def)

lemma bf_for_each_coords:
  assumes "for_each (bf_push cities goal path) ns pq = Inr pq'"
  shows "\<forall>n \<in> set ns. n \<notin> set path \<longrightarrow> n \<in> dom cities"
  using assms
proof (induction ns arbitrary: pq)
  case Nil
  then show ?case by simp
next
  case (Cons n ns)
  from Cons.prems obtain pq1 where
    step: "bf_push cities goal path n pq = Inr pq1" and
    rest: "for_each (bf_push cities goal path) ns pq1 = Inr pq'"
    by (auto split: sum.splits)
  have "n \<notin> set path \<longrightarrow> n \<in> dom cities"
    using step by (auto simp: bf_push_def and_then_Inr getitem_Inr)
  with Cons.IH [OF rest] show ?case by simp
qed


lemma heappop_parts:
  assumes "pq \<noteq> []" "heappop pq = (m, rest)"
  shows "set rest \<subseteq> set pq" "set pq = insert m (set rest)"
proof -
  from heappop_mset(1) [OF assms] have "set_mset (mset pq) = set_mset (add_mset m (mset rest))"
    by simp
  then show "set pq = insert m (set rest)" by simp
  then show "set rest \<subseteq> set pq" by auto
qed

lemma bf_iteration_good:
  assumes ne: "pq \<noteq> []" and pop: "heappop pq = ((h, city, path), rest)"
    and loop: "for_each (bf_push cities goal path) (get_neighbors adj city) rest = Inr pq'"
    and good: "\<forall>e \<in> set pq. bf_good cities adj start e"
  shows "\<forall>e \<in> set pq'. bf_good cities adj start e"
proof
  fix e assume e: "e \<in> set pq'"
  from heappop_mset(2) [OF ne pop] good have top: "bf_good cities adj start (h, city, path)"
    by blast
  from bf_for_each_shape [OF loop] obtain new where
    new: "pq' = new @ rest"
      "\<forall>e \<in> set new. \<exists>n \<in> set (get_neighbors adj city). n \<notin> set path \<and> snd e = (n, path @ [n])"
    by blast
  show "bf_good cities adj start e"
  proof (cases "e \<in> set rest")
    case True
    with heappop_parts(1) [OF ne pop] good show ?thesis by blast
  next
    case False
    with e new obtain n where n: "n \<in> set (get_neighbors adj city)" "n \<notin> set path"
      "snd e = (n, path @ [n])"
      by auto
    then have "snd e \<in> set (successors path (get_neighbors adj city))"
      by (auto simp: successors_def)
    then have "good_entry adj start (snd e)"
      using top by (auto simp: bf_good_def intro: good_successors)
    moreover have "n \<in> dom cities" using bf_for_each_coords [OF loop] n by blast
    ultimately show ?thesis using top n(3) by (simp add: bf_good_def)
  qed
qed

lemma best_first_loop_sound:
  assumes "best_first_loop cities goal adj pq = Inr (Some p)"
    and "\<forall>e \<in> set pq. bf_good cities adj start e"
  shows "simple_path adj start goal p \<and> set p \<subseteq> dom cities"
  using assms
proof (induction cities goal adj pq rule: best_first_loop.induct)
  case (1 cities goal adj pq)
  from "1.prems"(1) have ne: "pq \<noteq> []" by (auto simp: best_first_loop.simps)
  obtain h city path rest where pop: "heappop pq = ((h, city, path), rest)"
    by (metis prod.exhaust)
  show ?case
  proof (cases "city = goal")
    case True
    with "1.prems"(1) ne pop have "p = path" by (simp add: best_first_loop.simps)
    moreover from heappop_mset(2) [OF ne pop] "1.prems"(2)
    have "bf_good cities adj start (h, city, path)" by blast
    ultimately show ?thesis using True
      by (simp add: bf_good_def good_entry_def)
  next
    case False
    with "1.prems"(1) ne pop obtain pq' where
      loop: "for_each (bf_push cities goal path) (get_neighbors adj city) rest = Inr pq'" and
      res: "best_first_loop cities goal adj pq' = Inr (Some p)"
      by (auto simp: best_first_loop.simps split: sum.splits)
    from bf_iteration_good [OF ne pop loop "1.prems"(2)]
    have "\<forall>e \<in> set pq'. bf_good cities adj start e" .
    from "1.IH" [OF ne pop [symmetric] refl refl False loop res this] show ?thesis .
  qed
qed

lemma best_first_search_sound:
  assumes "best_first_search start goal adj cities = Inr (Some p)"
  shows "simple_path adj start goal p \<and> set p \<subseteq> dom cities"
proof -
  from assms obtain cs h where
    "cities start = Some cs" "best_first_loop cities goal adj [(h, start, [start])] = Inr (Some p)"
    by (auto simp: best_first_search_def and_then_Inr getitem_Inr)
  then show ?thesis
    by (intro best_first_loop_sound [where pq = "[(h, start, [start])]"])
      (auto simp: bf_good_def good_entry_start)
qed


section \<open>Invariants and soundness of A-star\<close>

text \<open>
  The distance between two cities of the location map, and the accumulated distance of
  a path (the sum of the distances between its consecutive cities).
\<close>

definition dist_of :: "locations \<Rightarrow> string \<Rightarrow> string \<Rightarrow> real" where
  "dist_of cities x y = hav (the (cities x)) (the (cities y))"

fun cost :: "locations \<Rightarrow> string list \<Rightarrow> real" where
  "cost cities (x # y # zs) = dist_of cities x y + cost cities (y # zs)"
| "cost cities [x] = 0"
| "cost cities [] = 0"

lemma dist_of_nonneg: "0 \<le> dist_of cities x y"
  by (simp add: dist_of_def hav_nonneg)



lemma cost_nonneg: "0 \<le> cost cities p"
  by (induction cities p rule: cost.induct) (simp_all add: dist_of_nonneg)

lemma cost_snoc: "p \<noteq> [] \<Longrightarrow> cost cities (p @ [n]) = cost cities p + dist_of cities (last p) n"
  by (induction cities p rule: cost.induct) simp_all

lemma cost_append:
  "p \<noteq> [] \<Longrightarrow> cost cities (p @ r) = cost cities p + cost cities (last p # r)"
  by (induction cities p rule: cost.induct) simp_all

lemma cost_take_le: "cost cities (take k p) \<le> cost cities p"
proof (cases "take k p = []")
  case True
  have "cost cities (take k p) = 0" unfolding True by simp
  then show ?thesis using cost_nonneg [of cities p] by simp
next
  case False
  have "cost cities (take k p @ drop k p) = cost cities (take k p)
      + cost cities (last (take k p) # drop k p)"
    using False by (rule cost_append)
  then show ?thesis using cost_nonneg [of cities "last (take k p) # drop k p"] by simp
qed




text \<open>The test of \<^verbatim>\<open>a_star_search\<close> before a push, and a cost table that is at least as good.\<close>

definition better :: "(string \<rightharpoonup> real) \<Rightarrow> string \<Rightarrow> real \<Rightarrow> bool" where
  "better visited n c = (case visited n of None \<Rightarrow> True | Some v \<Rightarrow> c < v)"

definition improves :: "(string \<rightharpoonup> real) \<Rightarrow> (string \<rightharpoonup> real) \<Rightarrow> bool" where
  "improves visited' visited =
     (\<forall>n v. visited n = Some v \<longrightarrow> (\<exists>v'. visited' n = Some v' \<and> v' \<le> v))"

lemma improves_refl: "improves visited visited"
  by (simp add: improves_def)

lemma improves_trans: "improves c b \<Longrightarrow> improves b a \<Longrightarrow> improves c a"
  unfolding improves_def by (meson order_trans)

lemma improves_update: "better visited n c \<Longrightarrow> improves (visited(n \<mapsto> c)) visited"
  by (auto simp: improves_def better_def)

lemma better_mono: "better b n c \<Longrightarrow> improves b a \<Longrightarrow> better a n c"
  unfolding better_def improves_def by (fastforce split: option.splits)

lemma astar_relax_effect:
  assumes "astar_relax cities goal city path g n (visited, pq) = Inr st'"
  shows "city \<in> dom cities \<and> n \<in> dom cities \<and> goal \<in> dom cities
       \<and> st' = (if better visited n (g + dist_of cities city n)
                 then (visited(n \<mapsto> g + dist_of cities city n),
                       (g + dist_of cities city n + dist_of cities n goal, n, path @ [n],
                        g + dist_of cities city n) # pq)
                 else (visited, pq))"
proof -
  from assms obtain cc cn cg where c: "cities city = Some cc" "cities n = Some cn"
    "cities goal = Some cg"
    by (auto simp: astar_relax_def and_then_Inr getitem_Inr Let_def)
  with assms show ?thesis
    by (auto simp: astar_relax_def getitem_def and_then_def haversine_eq dist_of_def Let_def
        better_def heappush_def split: if_splits)
qed


text \<open>What one run of the for loop of \<^verbatim>\<open>a_star_search\<close> does to the table and the queue.\<close>

definition pushed ::
  "locations \<Rightarrow> string \<Rightarrow> string \<Rightarrow> string list \<Rightarrow> real \<Rightarrow> string \<Rightarrow> astar_entry" where
  "pushed cities goal city path g n =
     (g + dist_of cities city n + dist_of cities n goal, n, path @ [n], g + dist_of cities city n)"

definition relaxed ::
  "locations \<Rightarrow> string \<Rightarrow> string \<Rightarrow> string list \<Rightarrow> real \<Rightarrow> string list
     \<Rightarrow> (string \<rightharpoonup> real) \<Rightarrow> astar_entry list \<Rightarrow> (string \<rightharpoonup> real) \<Rightarrow> astar_entry list \<Rightarrow> bool" where
  "relaxed cities goal city path g ns visited pq visited' pq' =
     (improves visited' visited
      \<and> (\<forall>n \<in> set ns. \<exists>v. visited' n = Some v \<and> v \<le> g + dist_of cities city n)
      \<and> (\<forall>n. visited' n \<noteq> visited n \<longrightarrow>
            n \<in> set ns \<and> visited' n = Some (g + dist_of cities city n)
          \<and> better visited n (g + dist_of cities city n)
          \<and> pushed cities goal city path g n \<in> set pq')
      \<and> (\<exists>new. pq' = new @ pq
            \<and> (\<forall>e \<in> set new. \<exists>n \<in> set ns. e = pushed cities goal city path g n
                   \<and> better visited n (g + dist_of cities city n)))
      \<and> (visited' = visited \<longrightarrow> pq' = pq))"

lemma relaxed_improves:
  "relaxed cities goal city path g ns visited pq visited' pq' \<Longrightarrow> improves visited' visited"
  by (simp add: relaxed_def)

lemma relaxed_neighbors:
  "relaxed cities goal city path g ns visited pq visited' pq' \<Longrightarrow> n \<in> set ns \<Longrightarrow>
     \<exists>v. visited' n = Some v \<and> v \<le> g + dist_of cities city n"
  by (simp add: relaxed_def)

lemma relaxed_changed:
  "relaxed cities goal city path g ns visited pq visited' pq' \<Longrightarrow> visited' n \<noteq> visited n \<Longrightarrow>
     n \<in> set ns \<and> visited' n = Some (g + dist_of cities city n)
     \<and> better visited n (g + dist_of cities city n)
     \<and> pushed cities goal city path g n \<in> set pq'"
  by (simp add: relaxed_def)

lemma relaxed_queue:
  "relaxed cities goal city path g ns visited pq visited' pq' \<Longrightarrow>
     \<exists>new. pq' = new @ pq
       \<and> (\<forall>e \<in> set new. \<exists>n \<in> set ns. e = pushed cities goal city path g n
              \<and> better visited n (g + dist_of cities city n))"
  by (simp add: relaxed_def)

lemma relaxed_same:
  "relaxed cities goal city path g ns visited pq visited' pq' \<Longrightarrow> visited' = visited \<Longrightarrow> pq' = pq"
  by (simp add: relaxed_def)

lemma relaxed_Nil: "relaxed cities goal city path g [] visited pq visited pq"
  by (simp add: relaxed_def improves_refl)

lemma relaxed_Cons:
  assumes first: "(v1, pq1) = (if better visited n (g + dist_of cities city n)
                 then (visited(n \<mapsto> g + dist_of cities city n),
                       pushed cities goal city path g n # pq)
                 else (visited, pq))"
    and rest: "relaxed cities goal city path g ns v1 pq1 visited' pq'"
  shows "relaxed cities goal city path g (n # ns) visited pq visited' pq'"
proof -
  let ?c = "g + dist_of cities city n"
  have imp1: "improves v1 visited"
    using first by (auto simp: improves_refl improves_update split: if_splits)
  have imp: "improves visited' visited"
    using relaxed_improves [OF rest] imp1 by (rule improves_trans)
  have v1n: "\<exists>w. v1 n = Some w \<and> w \<le> ?c"
    using first by (auto simp: better_def split: if_splits option.splits)
  have nb: "\<exists>v. visited' m = Some v \<and> v \<le> g + dist_of cities city m" if "m \<in> set (n # ns)" for m
  proof (cases "m \<in> set ns")
    case True
    then show ?thesis by (rule relaxed_neighbors [OF rest])
  next
    case False
    with that have "m = n" by simp
    with v1n relaxed_improves [OF rest] show ?thesis
      unfolding improves_def by (metis order_trans)
  qed
  have pq1: "\<exists>new1. pq1 = new1 @ pq \<and> (\<forall>e \<in> set new1. e = pushed cities goal city path g n
      \<and> better visited n ?c)"
  proof (cases "better visited n ?c")
    case True
    with first have "pq1 = [pushed cities goal city path g n] @ pq" by simp
    with True show ?thesis by (intro exI [of _ "[pushed cities goal city path g n]"]) simp
  next
    case False
    with first have "pq1 = [] @ pq" by simp
    then show ?thesis by (intro exI [of _ "[]"]) simp
  qed
  then obtain new1 where new1: "pq1 = new1 @ pq"
    "\<forall>e \<in> set new1. e = pushed cities goal city path g n \<and> better visited n ?c"
    by blast
  from relaxed_queue [OF rest] obtain new where new: "pq' = new @ pq1"
    "\<forall>e \<in> set new. \<exists>m \<in> set ns. e = pushed cities goal city path g m
        \<and> better v1 m (g + dist_of cities city m)"
    by blast
  have ch: "m \<in> set (n # ns) \<and> visited' m = Some (g + dist_of cities city m)
      \<and> better visited m (g + dist_of cities city m)
      \<and> pushed cities goal city path g m \<in> set pq'" if "visited' m \<noteq> visited m" for m
  proof (cases "visited' m = v1 m")
    case False
    from relaxed_changed [OF rest False] better_mono [OF _ imp1] show ?thesis by auto
  next
    case True
    with that have neq: "v1 m \<noteq> visited m" by simp
    with first have b: "better visited n ?c" and m: "m = n"
      by (auto split: if_splits)
    with first have "v1 n = Some ?c" "pushed cities goal city path g n \<in> set pq1" by auto
    with True m b new(1) show ?thesis by auto
  qed
  have qu: "\<exists>new'. pq' = new' @ pq
      \<and> (\<forall>e \<in> set new'. \<exists>m \<in> set (n # ns). e = pushed cities goal city path g m
             \<and> better visited m (g + dist_of cities city m))"
  proof (intro exI [of _ "new @ new1"] conjI ballI)
    show "pq' = (new @ new1) @ pq" using new(1) new1(1) by simp
  next
    fix e assume "e \<in> set (new @ new1)"
    then consider "e \<in> set new" | "e \<in> set new1" by auto
    then show "\<exists>m \<in> set (n # ns). e = pushed cities goal city path g m
        \<and> better visited m (g + dist_of cities city m)"
    proof cases
      case 1
      with new(2) obtain m where "m \<in> set ns" "e = pushed cities goal city path g m"
        "better v1 m (g + dist_of cities city m)"
        by blast
      with better_mono [OF _ imp1] show ?thesis by auto
    next
      case 2
      with new1(2) show ?thesis by auto
    qed
  qed
  have same: "pq' = pq" if eq: "visited' = visited"
  proof -
    have nb: "\<not> better visited n ?c"
    proof
      assume b: "better visited n ?c"
      with first have "v1 n = Some ?c" by simp
      with relaxed_improves [OF rest] obtain w where "visited' n = Some w" "w \<le> ?c"
        unfolding improves_def by blast
      with b eq show False by (simp add: better_def)
    qed
    with first have "v1 = visited" "pq1 = pq" by simp_all
    with relaxed_same [OF rest] eq show ?thesis by simp
  qed
  show ?thesis
    unfolding relaxed_def using imp nb ch qu same by blast
qed

lemma astar_for_each_relaxed:
  assumes "for_each (astar_relax cities goal city path g) ns (visited, pq) = Inr (visited', pq')"
  shows "relaxed cities goal city path g ns visited pq visited' pq'"
  using assms
proof (induction ns arbitrary: visited pq)
  case Nil
  then show ?case by (simp add: relaxed_Nil)
next
  case (Cons n ns)
  from Cons.prems obtain v1 pq1 where
    step: "astar_relax cities goal city path g n (visited, pq) = Inr (v1, pq1)" and
    rest: "for_each (astar_relax cities goal city path g) ns (v1, pq1) = Inr (visited', pq')"
    by (auto split: sum.splits)
  from astar_relax_effect [OF step]
  have "(v1, pq1) = (if better visited n (g + dist_of cities city n)
                 then (visited(n \<mapsto> g + dist_of cities city n),
                       pushed cities goal city path g n # pq)
                 else (visited, pq))"
    by (simp add: pushed_def)
  then show ?case using Cons.IH [OF rest] by (rule relaxed_Cons)
qed

lemma astar_for_each_coords:
  assumes "for_each (astar_relax cities goal city path g) ns st = Inr st'" "ns \<noteq> []"
  shows "city \<in> dom cities \<and> goal \<in> dom cities \<and> set ns \<subseteq> dom cities"
  using assms
proof (induction ns arbitrary: st)
  case Nil
  then show ?case by simp
next
  case (Cons n ns)
  from Cons.prems(1) obtain st1 where
    step: "astar_relax cities goal city path g n st = Inr st1" and
    rest: "for_each (astar_relax cities goal city path g) ns st1 = Inr st'"
    by (auto split: sum.splits)
  from astar_relax_effect [of cities goal city path g n "fst st" "snd st" st1] step
  have "city \<in> dom cities \<and> n \<in> dom cities \<and> goal \<in> dom cities" by simp
  with Cons.IH [OF rest] show ?case by (cases "ns = []") auto
qed



text \<open>
  Invariant of the loop of \<^verbatim>\<open>a_star_search\<close> after its first iteration.  A queued path
  starts at the start, follows edges, repeats no city except that it may end at the
  start again, and every city after the first has a table entry that is at most the
  cost of the path up to it.
\<close>

definition path_ok :: "locations \<Rightarrow> adjacency \<Rightarrow> string \<Rightarrow> (string \<rightharpoonup> real) \<Rightarrow> string list \<Rightarrow> bool" where
  "path_ok cities adj start visited p =
     (is_walk adj p \<and> hd p = start \<and> distinct (tl p)
      \<and> (\<forall>k. 1 \<le> k \<and> k < length p \<longrightarrow>
            (\<exists>v. visited (p ! k) = Some v \<and> v \<le> cost cities (take (Suc k) p))))"

definition entry_ok ::
  "locations \<Rightarrow> string \<Rightarrow> adjacency \<Rightarrow> string \<Rightarrow> (string \<rightharpoonup> real) \<Rightarrow> astar_entry \<Rightarrow> bool" where
  "entry_ok cities goal adj start visited e =
     (case e of (f, c, p, g) \<Rightarrow>
        path_ok cities adj start visited p \<and> last p = c \<and> 2 \<le> length p
      \<and> set p \<subseteq> dom cities \<and> g = cost cities p \<and> f = g + dist_of cities c goal
      \<and> (start \<in> set (tl p) \<longrightarrow> c = start))"

definition start_relaxed :: "locations \<Rightarrow> adjacency \<Rightarrow> string \<Rightarrow> (string \<rightharpoonup> real) \<Rightarrow> bool" where
  "start_relaxed cities adj start visited =
     (\<forall>n \<in> set (get_neighbors adj start). \<exists>v. visited n = Some v \<and> v \<le> dist_of cities start n)"

definition astar_inv ::
  "locations \<Rightarrow> string \<Rightarrow> adjacency \<Rightarrow> string \<Rightarrow> (string \<rightharpoonup> real) \<Rightarrow> astar_entry list \<Rightarrow> bool" where
  "astar_inv cities goal adj start visited pq =
     (start \<noteq> goal \<and> start_relaxed cities adj start visited
      \<and> (\<forall>e \<in> set pq. entry_ok cities goal adj start visited e))"

lemma path_ok_improves:
  "path_ok cities adj start visited p \<Longrightarrow> improves visited' visited \<Longrightarrow>
     path_ok cities adj start visited' p"
  unfolding path_ok_def improves_def by (meson order_trans)

lemma entry_ok_improves:
  "entry_ok cities goal adj start visited e \<Longrightarrow> improves visited' visited \<Longrightarrow>
     entry_ok cities goal adj start visited' e"
  unfolding entry_ok_def by (auto intro: path_ok_improves)

lemma start_relaxed_improves:
  "start_relaxed cities adj start visited \<Longrightarrow> improves visited' visited \<Longrightarrow>
     start_relaxed cities adj start visited'"
  unfolding start_relaxed_def improves_def by (meson order_trans)

lemma path_ok_single: "path_ok cities adj start visited [start]"
  by (simp add: path_ok_def)

lemma path_ok_extend:
  assumes ok: "path_ok cities adj start visited p"
    and rep: "start \<in> set (tl p) \<Longrightarrow> last p = start \<and> start_relaxed cities adj start visited"
    and n: "n \<in> set (get_neighbors adj (last p))"
    and b: "better visited n (cost cities p + dist_of cities (last p) n)"
    and imp: "improves visited' visited"
    and v': "visited' n = Some v" "v \<le> cost cities p + dist_of cities (last p) n"
  shows "path_ok cities adj start visited' (p @ [n])"
    and "start \<in> set (tl (p @ [n])) \<Longrightarrow> n = start"
proof -
  from ok have walk: "is_walk adj p" and hd: "hd p = start" and dist: "distinct (tl p)"
    and pre: "\<And>k. 1 \<le> k \<Longrightarrow> k < length p \<Longrightarrow>
        \<exists>v. visited (p ! k) = Some v \<and> v \<le> cost cities (take (Suc k) p)"
    by (simp_all add: path_ok_def)
  from walk have ne: "p \<noteq> []" by (rule is_walk_nonempty)
  let ?c = "cost cities p + dist_of cities (last p) n"
  have notin: "n \<notin> set (tl p)"
  proof
    assume "n \<in> set (tl p)"
    then obtain j where j: "j < length (tl p)" "tl p ! j = n" by (auto simp: in_set_conv_nth)
    then have k: "1 \<le> Suc j" "Suc j < length p" "p ! Suc j = n"
      using ne by (simp_all add: nth_tl)
    from pre [OF k(1,2)] k(3) obtain w where w: "visited n = Some w"
      "w \<le> cost cities (take (Suc (Suc j)) p)"
      by auto
    have "w \<le> ?c"
      using w(2) cost_take_le [of cities "Suc (Suc j)" p] dist_of_nonneg [of cities "last p" n]
      by linarith
    with b w(1) show False by (simp add: better_def)
  qed
  have norep: "start \<notin> set (tl p)"
  proof
    assume s: "start \<in> set (tl p)"
    from rep [OF s] have l: "last p = start" and r: "start_relaxed cities adj start visited"
      by simp_all
    from r n l obtain w where w: "visited n = Some w" "w \<le> dist_of cities start n"
      unfolding start_relaxed_def by auto
    have "w \<le> ?c" using w(2) l cost_nonneg [of cities p] by simp
    with b w(1) show False by (simp add: better_def)
  qed
  show "n = start" if "start \<in> set (tl (p @ [n]))"
    using that norep ne by simp
  have "is_walk adj (p @ [n])" using walk n by (rule is_walk_snoc)
  moreover have "hd (p @ [n]) = start" using hd ne by simp
  moreover have "distinct (tl (p @ [n]))" using dist notin ne by simp
  moreover have "\<exists>w. visited' ((p @ [n]) ! k) = Some w \<and> w \<le> cost cities (take (Suc k) (p @ [n]))"
    if k: "1 \<le> k" "k < length (p @ [n])" for k
  proof (cases "k < length p")
    case True
    from pre [OF k(1) True] obtain w where "visited (p ! k) = Some w"
      "w \<le> cost cities (take (Suc k) p)"
      by blast
    with imp obtain w' where "visited' (p ! k) = Some w'" "w' \<le> cost cities (take (Suc k) p)"
      unfolding improves_def by (meson order_trans)
    with True show ?thesis by (simp add: nth_append)
  next
    case False
    with k(2) have "k = length p" by simp
    with v' ne show ?thesis by (simp add: cost_snoc)
  qed
  ultimately show "path_ok cities adj start visited' (p @ [n])"
    unfolding path_ok_def by blast
qed

lemma entry_ok_pushed:
  assumes ok: "path_ok cities adj start visited p"
    and rep: "start \<in> set (tl p) \<Longrightarrow> last p = start \<and> start_relaxed cities adj start visited"
    and dom: "set p \<subseteq> dom cities" "n \<in> dom cities"
    and n: "n \<in> set (get_neighbors adj (last p))"
    and b: "better visited n (cost cities p + dist_of cities (last p) n)"
    and imp: "improves visited' visited"
    and v': "visited' n = Some v" "v \<le> cost cities p + dist_of cities (last p) n"
  shows "entry_ok cities goal adj start visited' (pushed cities goal (last p) p (cost cities p) n)"
proof -
  from ok have ne: "p \<noteq> []" by (auto simp: path_ok_def dest: is_walk_nonempty)
  then have "2 \<le> length (p @ [n])" by (cases p) simp_all
  with path_ok_extend [OF ok rep n b imp v'] dom ne show ?thesis
    by (simp add: entry_ok_def pushed_def cost_snoc)
qed


lemma astar_step_inv:
  assumes inv: "astar_inv cities goal adj start visited pq"
    and ne: "pq \<noteq> []" and pop: "heappop pq = ((f, city, path, g), rest)"
    and loop: "for_each (astar_relax cities goal city path g) (get_neighbors adj city)
                 (visited, rest) = Inr (visited', pq')"
  shows "astar_inv cities goal adj start visited' pq'"
proof -
  note rel = astar_for_each_relaxed [OF loop]
  note imp = relaxed_improves [OF rel]
  from inv have sr: "start_relaxed cities adj start visited" and neq: "start \<noteq> goal"
    and all: "\<forall>e \<in> set pq. entry_ok cities goal adj start visited e"
    by (simp_all add: astar_inv_def)
  from heappop_mset(2) [OF ne pop] all
  have "entry_ok cities goal adj start visited (f, city, path, g)" by blast
  then have top: "path_ok cities adj start visited path" "last path = city"
    "set path \<subseteq> dom cities" "g = cost cities path" "start \<in> set (tl path) \<Longrightarrow> city = start"
    by (simp_all add: entry_ok_def)
  from relaxed_queue [OF rel] obtain new where new: "pq' = new @ rest"
    "\<forall>e \<in> set new. \<exists>n \<in> set (get_neighbors adj city). e = pushed cities goal city path g n
        \<and> better visited n (g + dist_of cities city n)"
    by blast
  have "entry_ok cities goal adj start visited' e" if "e \<in> set pq'" for e
  proof (cases "e \<in> set rest")
    case True
    with heappop_parts(1) [OF ne pop] all have "entry_ok cities goal adj start visited e" by blast
    then show ?thesis using imp by (rule entry_ok_improves)
  next
    case False
    with that new obtain n where n: "n \<in> set (get_neighbors adj city)"
      "e = pushed cities goal city path g n" "better visited n (g + dist_of cities city n)"
      by auto
    from n(1) have "get_neighbors adj city \<noteq> []" by auto
    from astar_for_each_coords [OF loop this] n(1) have nd: "n \<in> dom cities" by auto
    from relaxed_neighbors [OF rel n(1)] obtain v where
      v: "visited' n = Some v" "v \<le> g + dist_of cities city n"
      by blast
    have "entry_ok cities goal adj start visited'
        (pushed cities goal (last path) path (cost cities path) n)"
      using top(1) _ top(3) nd _ _ imp
    proof (rule entry_ok_pushed)
      show "last path = start \<and> start_relaxed cities adj start visited" if "start \<in> set (tl path)"
        using top(5) [OF that] top(2) sr by simp
      show "n \<in> set (get_neighbors adj (last path))" using n(1) top(2) by simp
      show "better visited n (cost cities path + dist_of cities (last path) n)"
        using n(3) top(2,4) by simp
      show "visited' n = Some v" by (rule v(1))
      show "v \<le> cost cities path + dist_of cities (last path) n" using v(2) top(2,4) by simp
    qed
    then show ?thesis using n(2) top(2,4) by simp
  qed
  with neq start_relaxed_improves [OF sr imp] show ?thesis by (simp add: astar_inv_def)
qed

lemma astar_first_inv:
  assumes neq: "start \<noteq> goal"
    and loop: "for_each (astar_relax cities goal start [start] 0) (get_neighbors adj start)
                 (Map.empty, []) = Inr (visited', pq')"
  shows "astar_inv cities goal adj start visited' pq'"
proof -
  note rel = astar_for_each_relaxed [OF loop]
  note imp = relaxed_improves [OF rel]
  from relaxed_queue [OF rel] have new:
    "\<forall>e \<in> set pq'. \<exists>n \<in> set (get_neighbors adj start). e = pushed cities goal start [start] 0 n
        \<and> better Map.empty n (0 + dist_of cities start n)"
    by auto
  have "entry_ok cities goal adj start visited' e" if "e \<in> set pq'" for e
  proof -
    from that new obtain n where n: "n \<in> set (get_neighbors adj start)"
      "e = pushed cities goal start [start] 0 n"
      by blast
    from n(1) have "get_neighbors adj start \<noteq> []" by auto
    from astar_for_each_coords [OF loop this] n(1)
    have nd: "n \<in> dom cities" "start \<in> dom cities" by auto
    from relaxed_neighbors [OF rel n(1)] obtain v where
      v: "visited' n = Some v" "v \<le> 0 + dist_of cities start n"
      by blast
    have "entry_ok cities goal adj start visited'
        (pushed cities goal (last [start]) [start] (cost cities [start]) n)"
      using path_ok_single [of cities adj start Map.empty] _ _ nd(1) _ _ imp
    proof (rule entry_ok_pushed)
      show "last [start] = start \<and> start_relaxed cities adj start Map.empty"
        if "start \<in> set (tl [start])"
        using that by simp
      show "set [start] \<subseteq> dom cities" using nd(2) by simp
      show "n \<in> set (get_neighbors adj (last [start]))" using n(1) by simp
      show "better Map.empty n (cost cities [start] + dist_of cities (last [start]) n)"
        by (simp add: better_def)
      show "visited' n = Some v" by (rule v(1))
      show "v \<le> cost cities [start] + dist_of cities (last [start]) n" using v(2) by simp
    qed
    then show ?thesis using n(2) by simp
  qed
  moreover have "start_relaxed cities adj start visited'"
    unfolding start_relaxed_def using relaxed_neighbors [OF rel] by auto
  ultimately show ?thesis using neq by (simp add: astar_inv_def)
qed

lemma entry_ok_simple:
  assumes "entry_ok cities goal adj start visited (f, goal, p, g)" "start \<noteq> goal"
  shows "simple_path adj start goal p" "set p \<subseteq> dom cities"
proof -
  from assms have w: "is_walk adj p" "hd p = start" "last p = goal" "distinct (tl p)"
    "start \<notin> set (tl p)" and d: "set p \<subseteq> dom cities"
    by (auto simp: entry_ok_def path_ok_def)
  from w(1) have "p = hd p # tl p" by (cases p) simp_all
  with w(2,4,5) have "distinct p" by (metis distinct.simps(2))
  with w show "simple_path adj start goal p" by (simp add: simple_path_def connects_def)
  show "set p \<subseteq> dom cities" by (rule d)
qed

lemma a_star_loop_sound:
  assumes "a_star_loop cities goal adj st = Some r"
    and "astar_inv cities goal adj start (fst st) (snd st)"
    and "r = Inr (Some p)"
  shows "simple_path adj start goal p \<and> set p \<subseteq> dom cities"
  using assms
proof (induction arbitrary: p rule: a_star_loop.raw_induct [rotated 1, consumes 1])
  case (1 loop cities goal adj st r)
  obtain visited pq where st: "st = (visited, pq)" by (cases st)
  from "1.prems"(1) have inv: "astar_inv cities goal adj start visited pq" by (simp add: st)
  from "1.hyps" "1.prems"(2) have ne: "pq \<noteq> []" by (auto simp: st split: if_splits)
  obtain f city path g rest where pop: "heappop pq = ((f, city, path, g), rest)"
    by (metis prod.exhaust)
  show ?case
  proof (cases "city = goal")
    case True
    with "1.hyps" "1.prems"(2) ne pop have "p = path" by (simp add: st)
    moreover from heappop_mset(2) [OF ne pop] inv
    have "entry_ok cities goal adj start visited (f, city, path, g)"
      by (auto simp: astar_inv_def)
    ultimately show ?thesis
      using True inv entry_ok_simple [of cities goal adj start visited f p g]
      by (simp add: astar_inv_def)
  next
    case False
    with "1.hyps" "1.prems"(2) ne pop obtain visited' pq' where
      loop: "for_each (astar_relax cities goal city path g) (get_neighbors adj city)
               (visited, rest) = Inr (visited', pq')" and
      res: "loop cities goal adj (visited', pq') = Some r"
      by (auto simp: st split: sum.splits)
    from astar_step_inv [OF inv ne pop loop]
    have "astar_inv cities goal adj start (fst (visited', pq')) (snd (visited', pq'))" by simp
    from "1.IH" [OF res this "1.prems"(2)] show ?thesis .
  qed
qed

lemma a_star_search_sound:
  assumes "a_star_search start goal adj cities = Some (Inr (Some p))"
  shows "simple_path adj start goal p"
    and "start \<noteq> goal \<Longrightarrow> set p \<subseteq> dom cities" and "start = goal \<Longrightarrow> p = [start]"
proof -
  have first: "a_star_loop cities goal adj (Map.empty, [(0, start, [start], 0)])
      = Some (Inr (Some p))"
    using assms by (simp add: a_star_search_def)
  have eq: "p = [start]" if "start = goal"
    using first that by (subst (asm) a_star_loop.simps) (simp add: heappop_single)
  have ne: "simple_path adj start goal p \<and> set p \<subseteq> dom cities" if neq: "start \<noteq> goal"
  proof -
    from first neq obtain visited' pq' where
      loop: "for_each (astar_relax cities goal start [start] 0) (get_neighbors adj start)
               (Map.empty, []) = Inr (visited', pq')" and
      res: "a_star_loop cities goal adj (visited', pq') = Some (Inr (Some p))"
      by (subst (asm) a_star_loop.simps) (auto simp: heappop_single split: sum.splits)
    from astar_first_inv [OF neq loop]
    have "astar_inv cities goal adj start (fst (visited', pq')) (snd (visited', pq'))" by simp
    from a_star_loop_sound [OF res this refl] show ?thesis .
  qed
  show "simple_path adj start goal p"
    using eq ne by (cases "start = goal") (auto simp: simple_path_def connects_def)
  show "start \<noteq> goal \<Longrightarrow> set p \<subseteq> dom cities" using ne by simp
  show "start = goal \<Longrightarrow> p = [start]" by (rule eq)
qed

section \<open>Example: a line of three cities\<close>

text \<open>A line of three cities X, Y, Z, all placed at the same coordinates.\<close>

definition line_graph :: adjacency where
  "line_graph = fmupd ''X'' [''Y''] (fmupd ''Y'' [''X'', ''Z''] (fmupd ''Z'' [''Y''] fmempty))"

definition origin_cities :: locations where
  "origin_cities = [''X'' \<mapsto> (0, 0), ''Y'' \<mapsto> (0, 0), ''Z'' \<mapsto> (0, 0)]"

lemma line_neighbors:
  "get_neighbors line_graph ''X'' = [''Y'']"
  "get_neighbors line_graph ''Y'' = [''X'', ''Z'']"
  "get_neighbors line_graph ''Z'' = [''Y'']"
  by (simp_all add: get_neighbors_def line_graph_def)

lemma origin_getitem:
  "getitem origin_cities ''X'' = Inr (0, 0)"
  "getitem origin_cities ''Y'' = Inr (0, 0)"
  "getitem origin_cities ''Z'' = Inr (0, 0)"
  by (simp_all add: getitem_def origin_cities_def)

lemma haversine_origin: "haversine (0, 0) (0, 0) = Inr 0"
  by (simp add: haversine_eq hav_self)

lemma line_brute_force: "brute_force_search ''X'' ''Z'' line_graph origin_cities = Some [''X'', ''Y'', ''Z'']"
  by (simp add: brute_force_search_def line_neighbors push_stack_def)

lemma line_bfs: "bfs ''X'' ''Z'' line_graph = Some [''X'', ''Y'', ''Z'']"
  by (simp add: bfs_def line_neighbors push_queue_def)

lemma line_dfs: "dfs ''X'' ''Z'' line_graph = Some [''X'', ''Y'', ''Z'']"
  by (simp add: dfs_def line_neighbors push_stack_def)

lemma line_best_first:
  "best_first_search ''X'' ''Z'' line_graph origin_cities = Inr (Some [''X'', ''Y'', ''Z''])"
  by (simp add: best_first_search_def origin_getitem haversine_origin and_then_def
      best_first_loop.simps heappop_single line_neighbors bf_push_def heappush_def)

lemma line_pop: "heappop [(0::real, ''Z'', [''X'', ''Y'', ''Z''], 0::real), (0, ''X'', [''X'', ''Y'', ''X''], 0)]
    = ((0, ''X'', [''X'', ''Y'', ''X''], 0), [(0, ''Z'', [''X'', ''Y'', ''Z''], 0)])"
  by (simp add: heappop_def)

lemma line_a_star:
  "a_star_search ''X'' ''Z'' line_graph origin_cities = Some (Inr (Some [''X'', ''Y'', ''Z'']))"
  unfolding a_star_search_def
  apply (subst a_star_loop.simps)
  apply (simp add: heappop_single line_neighbors astar_relax_def origin_getitem haversine_origin
      and_then_def heappush_def)
  apply (subst a_star_loop.simps)
  apply (simp add: heappop_single line_neighbors astar_relax_def origin_getitem haversine_origin
      and_then_def heappush_def)
  apply (subst a_star_loop.simps)
  apply (simp add: line_pop line_neighbors astar_relax_def origin_getitem haversine_origin
      and_then_def heappush_def)
  apply (subst a_star_loop.simps)
  apply (simp add: heappop_single)
  done

section \<open>Termination of A-star\<close>













section \<open>An unreachable goal\<close>









section \<open>Optimality of A-star\<close>














section \<open>Example: a detour on the equator\<close>














section \<open>The claims\<close>



text \<open>
  C2: when the goal is reachable from the start, \<^verbatim>\<open>bfs\<close> returns a simple path from the
  start to the goal whose number of edges is minimal: no path of the graph from the start
  to the goal has fewer edges, so no simple path has, and neither has a path returned by
  \<^verbatim>\<open>brute_force_search\<close> or \<^verbatim>\<open>dfs\<close>.
\<close>

theorem bfs_minimal_edge_count:
  assumes "reachable adjacency_list start goal"
  shows "\<exists>p. bfs start goal adjacency_list = Some p
          \<and> simple_path adjacency_list start goal p
          \<and> (\<forall>q. connects adjacency_list start goal q \<longrightarrow> edge_count p \<le> edge_count q)
          \<and> (\<forall>q. simple_path adjacency_list start goal q \<longrightarrow> edge_count p \<le> edge_count q)
          \<and> (\<forall>q. brute_force_search start goal adjacency_list cities = Some q
                 \<longrightarrow> edge_count p \<le> edge_count q)
          \<and> (\<forall>q. dfs start goal adjacency_list = Some q \<longrightarrow> edge_count p \<le> edge_count q)"
proof -
  from assms obtain q0 where "connects adjacency_list start goal q0"
    unfolding reachable_def by blast
  from bfs_finds_shortest [OF this] obtain p where
    p: "bfs start goal adjacency_list = Some p" "simple_path adjacency_list start goal p"
    by blast
  have min: "edge_count p \<le> edge_count q" if "connects adjacency_list start goal q" for q
    using bfs_finds_shortest [OF that] p(1) by (auto simp: edge_count_def)
  have bf: "connects adjacency_list start goal q"
    if "brute_force_search start goal adjacency_list cities = Some q" for q
    using brute_force_loop_sound [of goal adjacency_list "[(start, [start])]" q start] that
    by (simp add: brute_force_search_def good_entry_start simple_path_def)
  have df: "connects adjacency_list start goal q"
    if "dfs start goal adjacency_list = Some q" for q
    using brute_force_loop_sound [of goal adjacency_list "[(start, [start])]" q start] that
    by (simp add: dfs_def dfs_loop_eq_brute_force_loop good_entry_start simple_path_def)
  show ?thesis
    using p min bf df by (intro exI [of _ p]) (auto simp: simple_path_def)
qed

theorem bfs_minimal_edge_count_witness:
  "reachable square ''A'' ''D''
   \<and> bfs ''A'' ''D'' square = Some [''A'', ''B'', ''D'']
   \<and> dfs ''A'' ''D'' square = Some [''A'', ''C'', ''D'']
   \<and> simple_path square ''A'' ''D'' [''A'', ''B'', ''D'']
   \<and> edge_count [''A'', ''B'', ''D''] \<le> edge_count [''A'', ''C'', ''D'']"
proof -
  have c: "connects square ''A'' ''D'' [''A'', ''B'', ''D'']"
    by (simp add: connects_def square_def get_neighbors_def)
  then have r: "reachable square ''A'' ''D''" unfolding reachable_def by blast
  have b: "bfs ''A'' ''D'' square = Some [''A'', ''B'', ''D'']"
    by (simp add: bfs_def square_def get_neighbors_def push_queue_def)
  have d: "dfs ''A'' ''D'' square = Some [''A'', ''C'', ''D'']"
    by (simp add: dfs_def square_def get_neighbors_def push_stack_def)
  from bfs_minimal_edge_count [OF r, of Map.empty] obtain p where
    p: "bfs ''A'' ''D'' square = Some p" "simple_path square ''A'' ''D'' p"
      "\<forall>q. dfs ''A'' ''D'' square = Some q \<longrightarrow> edge_count p \<le> edge_count q"
    by blast
  from p(1) b have "p = [''A'', ''B'', ''D'']" by simp
  with p(2,3) d r b show ?thesis by simp
qed






text \<open>
  C5, as amended: a row of fewer than three fields (\<^verbatim>\<open>load_cities\<close>) and a line of
  fewer than two fields (\<^verbatim>\<open>load_adjacency\<close>) are dropped without a trace: each loader
  returns, or raises, exactly what it does on the file without these records.
\<close>

theorem loaders_drop_short_records:
  "load_cities float_of (Some rows)
     = load_cities float_of (Some (filter (\<lambda>row. \<not> length row < 3) rows))
   \<and> load_adjacency (Some lines)
     = load_adjacency (Some (filter (\<lambda>line. \<not> length (str_split (str_strip line)) < 2) lines))"
  by (simp add: load_cities_def load_adjacency_def load_cities_rows_filter
      load_adjacency_lines_filter)

text \<open>
  The claim C5 as stated, for a record malformed in any way, fails: a line of three
  fields makes \<^verbatim>\<open>load_adjacency\<close> raise ValueError at the tuple assignment.
\<close>

theorem loaders_raise_on_long_record:
  "load_adjacency (Some [''A B C'']) = Inl ValueError"
  by (simp add: load_adjacency_def str_strip_def is_space_def str_split.simps)

text \<open>
  C6: a path returned by any of the five searches is a simple path from the start to
  the goal: it begins with the start, ends with the goal, each city is a neighbour of
  the one before it in the adjacency map, and no city occurs twice.
\<close>

theorem returned_paths_are_simple:
  "(brute_force_search start goal adjacency_list cities = Some p
      \<longrightarrow> simple_path adjacency_list start goal p)
   \<and> (bfs start goal adjacency_list = Some p \<longrightarrow> simple_path adjacency_list start goal p)
   \<and> (dfs start goal adjacency_list = Some p \<longrightarrow> simple_path adjacency_list start goal p)
   \<and> (best_first_search start goal adjacency_list cities = Inr (Some p)
      \<longrightarrow> simple_path adjacency_list start goal p)
   \<and> (a_star_search start goal adjacency_list cities = Some (Inr (Some p))
      \<longrightarrow> simple_path adjacency_list start goal p)"
proof (intro conjI impI)
  assume "brute_force_search start goal adjacency_list cities = Some p"
  then show "simple_path adjacency_list start goal p"
    unfolding brute_force_search_def
    by (rule brute_force_loop_sound) (simp add: good_entry_start)
next
  assume "bfs start goal adjacency_list = Some p"
  then show "simple_path adjacency_list start goal p"
    unfolding bfs_def by (rule bfs_loop_sound) (simp add: good_entry_start)
next
  assume "dfs start goal adjacency_list = Some p"
  then show "simple_path adjacency_list start goal p"
    unfolding dfs_def dfs_loop_eq_brute_force_loop
    by (rule brute_force_loop_sound) (simp add: good_entry_start)
next
  assume "best_first_search start goal adjacency_list cities = Inr (Some p)"
  then show "simple_path adjacency_list start goal p"
    by (simp add: best_first_search_sound)
next
  assume "a_star_search start goal adjacency_list cities = Some (Inr (Some p))"
  then show "simple_path adjacency_list start goal p"
    by (rule a_star_search_sound(1))
qed

theorem returned_paths_are_simple_witness:
  "brute_force_search ''X'' ''Z'' line_graph origin_cities = Some [''X'', ''Y'', ''Z'']
   \<and> bfs ''X'' ''Z'' line_graph = Some [''X'', ''Y'', ''Z'']
   \<and> dfs ''X'' ''Z'' line_graph = Some [''X'', ''Y'', ''Z'']
   \<and> best_first_search ''X'' ''Z'' line_graph origin_cities = Inr (Some [''X'', ''Y'', ''Z''])
   \<and> a_star_search ''X'' ''Z'' line_graph origin_cities = Some (Inr (Some [''X'', ''Y'', ''Z'']))
   \<and> simple_path line_graph ''X'' ''Z'' [''X'', ''Y'', ''Z'']"
  using returned_paths_are_simple [of "''X''" "''Z''" line_graph origin_cities "[''X'', ''Y'', ''Z'']"]
    line_brute_force line_bfs line_dfs line_best_first line_a_star
  by simp

text \<open>
  C7: \<^verbatim>\<open>dfs(start, goal, adjacency_list)\<close> returns exactly what
  \<^verbatim>\<open>brute_force_search(start, goal, adjacency_list, cities)\<close> returns, the same path or
  the same "not found", whatever the cities argument is.
\<close>

theorem dfs_equals_brute_force_search:
  "dfs start goal adjacency_list = brute_force_search start goal adjacency_list cities"
  by (simp add: dfs_def brute_force_search_def dfs_loop_eq_brute_force_loop)

text \<open>
  C8: in the map that \<^verbatim>\<open>load_adjacency\<close> returns, every line "A B" has put B into the
  neighbour list of A and A into the neighbour list of B, and the neighbour list of a
  name is exactly its partners in file order (a name with no partner has no entry).
\<close>

theorem load_adjacency_both_directions:
  assumes "load_adjacency (Some lines) = Inr adjacency_list"
  shows "(\<forall>name. fmlookup adjacency_list name =
            (if partners name lines = [] then None else Some (partners name lines)))
       \<and> (\<forall>line \<in> set lines. \<forall>A B. str_split (str_strip line) = [A, B] \<longrightarrow>
            B \<in> set (get_neighbors adjacency_list A) \<and> A \<in> set (get_neighbors adjacency_list B))"
proof -
  from assms have l: "load_adjacency_lines lines fmempty = Inr adjacency_list"
    by (simp add: load_adjacency_def)
  have lookup: "fmlookup adjacency_list name =
      (if partners name lines = [] then None else Some (partners name lines))" for name
    using load_adjacency_lines_lookup [OF l, of name] by (simp add: get_neighbors_def)
  then have "get_neighbors adjacency_list name = partners name lines" for name
    by (simp add: get_neighbors_def)
  with lookup partners_mem show ?thesis by auto
qed

theorem load_adjacency_both_directions_witness:
  "load_adjacency (Some [''A B'', ''C'', ''B D'']) =
     Inr (fmupd ''D'' [''B''] (fmupd ''B'' [''A'', ''D''] (fmupd ''A'' [''B''] fmempty)))
   \<and> fmlookup (fmupd ''D'' [''B''] (fmupd ''B'' [''A'', ''D''] (fmupd ''A'' [''B''] fmempty))) ''B''
       = Some (partners ''B'' [''A B'', ''C'', ''B D''])
   \<and> partners ''B'' [''A B'', ''C'', ''B D''] = [''A'', ''D'']"
proof -
  have l: "load_adjacency (Some [''A B'', ''C'', ''B D'']) =
     Inr (fmupd ''D'' [''B''] (fmupd ''B'' [''A'', ''D''] (fmupd ''A'' [''B''] fmempty)))"
    by (simp add: load_adjacency_def str_strip_def is_space_def append_neighbor_def
        get_neighbors_def str_split.simps)
  have p: "partners ''B'' [''A B'', ''C'', ''B D''] = [''A'', ''D'']"
    by (simp add: partners_def str_strip_def is_space_def str_split.simps)
  show ?thesis
    using l p load_adjacency_both_directions [OF l] by simp
qed


text \<open>
  C10: in the map that \<^verbatim>\<open>load_cities\<close> returns, the names are exactly the names of the
  three-field rows, one entry each, and a name is bound to the coordinates of the last
  row that carries it.
\<close>

theorem load_cities_last_row_wins:
  assumes "load_cities float_of (Some rows) = Inr cities"
  shows "dom cities = {name. \<exists>lat lon. [name, lat, lon] \<in> set rows}
       \<and> (\<forall>before name lat lon after.
            rows = before @ [name, lat, lon] # after
              \<and> (\<forall>row \<in> set after. length row = 3 \<longrightarrow> hd row \<noteq> name)
            \<longrightarrow> (\<exists>la lo. float_of lat = Some la \<and> float_of lon = Some lo
                   \<and> cities name = Some (la, lo)))"
proof -
  from assms have l: "load_cities_rows float_of rows Map.empty = Inr cities"
    by (simp add: load_cities_def)
  from load_cities_rows_dom [OF l]
  have "dom cities = {name. \<exists>lat lon. [name, lat, lon] \<in> set rows}" by simp
  moreover have "\<exists>la lo. float_of lat = Some la \<and> float_of lon = Some lo
      \<and> cities name = Some (la, lo)"
    if "rows = before @ [name, lat, lon] # after"
      "\<forall>row \<in> set after. length row = 3 \<longrightarrow> hd row \<noteq> name"
    for before name lat lon after
    using load_cities_rows_last [of float_of before name lat lon after Map.empty cities] l that
    by simp
  ultimately show ?thesis by blast
qed

theorem load_cities_last_row_wins_witness:
  "load_cities (map_of [(''1'', 1), (''2'', 2), (''3'', 3)])
       (Some [[''X'', ''1'', ''2''], [''Y''], [''X'', ''3'', ''1'']])
     = Inr [''X'' \<mapsto> (3, 1)]
   \<and> dom [''X'' \<mapsto> (3::real, 1::real)]
       = {name. \<exists>lat lon. [name, lat, lon]
            \<in> set [[''X'', ''1'', ''2''], [''Y''], [''X'', ''3'', ''1'']]}"
proof -
  have l: "load_cities (map_of [(''1'', 1), (''2'', 2), (''3'', 3)])
       (Some [[''X'', ''1'', ''2''], [''Y''], [''X'', ''3'', ''1'']])
     = Inr [''X'' \<mapsto> (3, 1)]"
    by (simp add: load_cities_def)
  show ?thesis
    using l load_cities_last_row_wins [OF l] by blast
qed

end
